theory Spec2Isabelle
  imports Main
begin

section \<open>Text\<close>

text \<open>
  A Python \<open>str\<close> is a sequence of Unicode code points; it is modelled as a list of
  natural numbers, one per code point, so that \<open>length\<close> is Python's \<open>len\<close> and
  \<open>take 100\<close> is the slice \<open>[:100]\<close>. ASCII literals are written with \<open>u\<close>.
\<close>

type_synonym ustr = "nat list"

definition u :: "string \<Rightarrow> ustr" where
  "u s = map of_char s"

text \<open>
  What the program takes from libraries whose tables are not part of the repository:
  the \<open>emoji\<close> package (\<open>emoji.replace_emoji(text, '')\<close>), the Unicode database behind
  \<open>str.lower\<close> and behind the decimal digits that \<open>\d\<close> and \<open>int\<close> accept, and the
  C library's rendering of \<open>%Y\<close>. The program's own text decides what does not depend
  on them: among the ASCII code points the digits are \<open>0\<close>..\<open>9\<close>, with their values,
  whatever the database holds beyond ASCII, and a year of four digits is rendered as it
  is by every C library; the field \<open>strftime_Y\<close> is consulted for the years below 1000
  only, which some libraries pad with zeros and others do not.
\<close>

record platform =
  replace_emoji :: "ustr \<Rightarrow> ustr"
  str_lower :: "ustr \<Rightarrow> ustr"
  unicode_decimal :: "nat \<Rightarrow> nat option"
  strftime_Y :: "nat \<Rightarrow> ustr"

text \<open>\<open>str.isspace\<close> on one code point; \<open>\s\<close>, \<open>strip()\<close> and \<open>split()\<close> use the same set.\<close>

definition isspace :: "nat \<Rightarrow> bool" where
  "isspace c = (c \<in> {0x9, 0xA, 0xB, 0xC, 0xD, 0x1C, 0x1D, 0x1E, 0x1F, 0x20, 0x85, 0xA0,
                      0x1680, 0x2000, 0x2001, 0x2002, 0x2003, 0x2004, 0x2005, 0x2006,
                      0x2007, 0x2008, 0x2009, 0x200A, 0x2028, 0x2029, 0x202F, 0x205F,
                      0x3000})"

definition strip :: "ustr \<Rightarrow> ustr" where
  "strip s = rev (dropWhile isspace (rev (dropWhile isspace s)))"

text \<open>\<open>s.split()\<close>: the maximal runs of non-whitespace code points.\<close>

fun split_acc :: "ustr \<Rightarrow> ustr \<Rightarrow> ustr list" where
  "split_acc cur [] = (if cur = [] then [] else [cur])"
| "split_acc cur (c # cs) =
     (if isspace c then (if cur = [] then split_acc [] cs else cur # split_acc [] cs)
      else split_acc (cur @ [c]) cs)"

definition split_ws :: "ustr \<Rightarrow> ustr list" where
  "split_ws s = split_acc [] s"

text \<open>\<open>s.splitlines()\<close>: \<open>\r\n\<close> is one line boundary, and a final boundary opens no line.\<close>

definition is_linebreak :: "nat \<Rightarrow> bool" where
  "is_linebreak c = (c \<in> {0xA, 0xB, 0xC, 0xD, 0x1C, 0x1D, 0x1E, 0x85, 0x2028, 0x2029})"

fun splitlines_acc :: "ustr \<Rightarrow> ustr \<Rightarrow> ustr list" where
  "splitlines_acc cur [] = (if cur = [] then [] else [cur])"
| "splitlines_acc cur (c # cs) =
     (if c = 0xD then
        (case cs of
           [] \<Rightarrow> [cur]
         | d # ds \<Rightarrow> if d = 0xA then cur # splitlines_acc [] ds else cur # splitlines_acc [] cs)
      else if is_linebreak c then cur # splitlines_acc [] cs
      else splitlines_acc (cur @ [c]) cs)"

definition splitlines :: "ustr \<Rightarrow> ustr list" where
  "splitlines s = splitlines_acc [] s"

text \<open>\<open>s.rsplit(sep, 1)\<close>: split once, at the last occurrence of the separator.\<close>

definition rsplit1 :: "nat \<Rightarrow> ustr \<Rightarrow> ustr list" where
  "rsplit1 sep s =
     (let back = takeWhile (\<lambda>c. c \<noteq> sep) (rev s);
          front = dropWhile (\<lambda>c. c \<noteq> sep) (rev s)
      in if front = [] then [s] else [rev (tl front), rev back])"

text \<open>\<open>term in text\<close> on strings.\<close>

fun starts_with :: "ustr \<Rightarrow> ustr \<Rightarrow> bool" where
  "starts_with [] s = True"
| "starts_with (p # ps) [] = False"
| "starts_with (p # ps) (c # cs) = (p = c \<and> starts_with ps cs)"

fun contains :: "ustr \<Rightarrow> ustr \<Rightarrow> bool" where
  "contains t [] = (t = [])"
| "contains t (c # cs) = (starts_with t (c # cs) \<or> contains t cs)"

text \<open>\<open>str(n)\<close> for a non-negative integer, and \<open>s.zfill(w)\<close>.\<close>

fun str_nat :: "nat \<Rightarrow> ustr" where
  "str_nat n = (if n < 10 then [48 + n] else str_nat (n div 10) @ [48 + n mod 10])"

declare str_nat.simps [simp del]

definition zfill :: "nat \<Rightarrow> ustr \<Rightarrow> ustr" where
  "zfill w s = replicate (w - length s) 48 @ s"

text \<open>
  The libraries on ASCII text that holds no emoji: nothing is removed, \<open>A\<close>..\<open>Z\<close> are
  lowered, the decimal digits are \<open>0\<close>..\<open>9\<close>, and \<open>%Y\<close> is the documented four digits.
  Concrete examples are evaluated on this platform.
\<close>

definition ascii_platform :: platform where
  "ascii_platform =
     \<lparr>replace_emoji = (\<lambda>s. s),
      str_lower = map (\<lambda>c. if 65 \<le> c \<and> c \<le> 90 then c + 32 else c),
      unicode_decimal = (\<lambda>c. if 48 \<le> c \<and> c \<le> 57 then Some (c - 48) else None),
      strftime_Y = (\<lambda>y. zfill 4 (str_nat y))\<rparr>"

text \<open>
  The same libraries with the C library of GNU/Linux, which renders a year below 1000
  without padding: there \<open>datetime(999, 1, 1).strftime('%Y')\<close> is \<open>999\<close>.
\<close>

definition glibc_platform :: platform where
  "glibc_platform = ascii_platform\<lparr>strftime_Y := str_nat\<rparr>"

section \<open>clean\_filename\<close>

text \<open>\<open>re.sub(r'[<>:"/\\|?*\n\r]', ' ', text)\<close>\<close>

definition special_chars :: "nat set" where
  "special_chars = {60, 62, 58, 34, 47, 92, 124, 63, 42, 10, 13}"

definition sub_special :: "ustr \<Rightarrow> ustr" where
  "sub_special text = map (\<lambda>c. if c \<in> special_chars then 32 else c) text"

text \<open>
  \<open>re.sub(r'[.,!?;:]+$', '', clean)\<close>. \<open>$\<close> matches at the end of the string and also
  just before a newline that ends the string.
\<close>

definition is_punct :: "nat \<Rightarrow> bool" where
  "is_punct c = (c \<in> {46, 44, 33, 63, 59, 58})"

definition sub_trailing_punct :: "ustr \<Rightarrow> ustr" where
  "sub_trailing_punct s =
     (if s \<noteq> [] \<and> last s = 10 then rev (dropWhile is_punct (rev (butlast s))) @ [10]
      else rev (dropWhile is_punct (rev s)))"

text \<open>\<open>re.sub(r'\s+', ' ', clean)\<close>\<close>

text \<open>
  The scan is written with a flag that says whether the previous code point belonged to
  the run being replaced: the first code point of a run emits the one space.
\<close>

fun sub_whitespace :: "bool \<Rightarrow> ustr \<Rightarrow> ustr" where
  "sub_whitespace in_run [] = []"
| "sub_whitespace in_run (c # cs) =
     (if isspace c then (if in_run then sub_whitespace True cs else 32 # sub_whitespace True cs)
      else c # sub_whitespace False cs)"

text \<open>The value of \<open>clean\<close> before the length limit is applied.\<close>

definition normalized :: "platform \<Rightarrow> ustr \<Rightarrow> ustr" where
  "normalized P text0 =
     strip (sub_whitespace False (sub_trailing_punct (sub_special (replace_emoji P text0))))"

definition clean_filename :: "platform \<Rightarrow> ustr \<Rightarrow> ustr" where
  "clean_filename P text0 =
     (let text = replace_emoji P text0;
          clean = sub_special text;
          clean = sub_trailing_punct clean;
          clean = strip (sub_whitespace False clean)
      in if length clean > 100 then hd (rsplit1 32 (take 100 clean)) else clean)"

section \<open>The parsed document\<close>

text \<open>
  The parser is outside the program. A \<open>Tag\<close> has a name, an attribute dictionary and
  its children in document order; a child is either a piece of text or a tag. Comments
  and the other special string classes of the parser are not modelled.
\<close>

datatype tag = Tag (name: ustr) (attrs: "ustr \<rightharpoonup> ustr") (children: "node list")
and node = NavigableString ustr | Element tag

text \<open>\<open>tag.get_text()\<close>: all text below the tag, in document order.\<close>

fun get_text :: "tag \<Rightarrow> ustr" and node_text :: "node \<Rightarrow> ustr" where
  "get_text (Tag n a cs) = concat (map node_text cs)"
| "node_text (NavigableString s) = s"
| "node_text (Element t) = get_text t"

text \<open>\<open>tag.get(key, default)\<close>\<close>

definition get_attr :: "tag \<Rightarrow> ustr \<Rightarrow> ustr \<Rightarrow> ustr" where
  "get_attr t key dflt = (case attrs t key of Some v \<Rightarrow> v | None \<Rightarrow> dflt)"

text \<open>\<open>tag.find_all('li', recursive=False)\<close>\<close>

definition find_all_li :: "tag \<Rightarrow> tag list" where
  "find_all_li t =
     concat (map (\<lambda>ch. case ch of
                          NavigableString s \<Rightarrow> []
                        | Element e \<Rightarrow> if name e = u ''li'' then [e] else [])
                 (children t))"

section \<open>convert\_tag\_to\_md\<close>

text \<open>
  The loop appends zero or more parts for each child and the parts are joined with the
  empty string; the model concatenates what each child contributes.
\<close>

function convert_tag_to_md :: "tag option \<Rightarrow> ustr" where
  "convert_tag_to_md None = []"
| "convert_tag_to_md (Some tag) =
     concat (map (\<lambda>child.
       case child of
         NavigableString s \<Rightarrow> s
       | Element c \<Rightarrow>
           if name c \<in> {u ''strong'', u ''b''} then
             (let content = strip (convert_tag_to_md (Some c))
              in if content \<noteq> [] then u ''**'' @ content @ u ''**'' else [])
           else if name c \<in> {u ''em'', u ''i''} then
             (let content = strip (convert_tag_to_md (Some c))
              in if content \<noteq> [] then u ''*'' @ content @ u ''*'' else [])
           else if name c = u ''code'' then [96] @ convert_tag_to_md (Some c) @ [96]
           else if name c = u ''pre'' then
             [96, 96, 96, 10] @ strip (convert_tag_to_md (Some c)) @ [10, 96, 96, 96]
           else if name c = u ''a'' then
             (let text = strip (get_text c);
                  href = get_attr c (u ''href'') []
              in if text \<noteq> [] \<and> href \<noteq> [] then u ''['' @ text @ u '']('' @ href @ u '')''
                 else if href \<noteq> [] then href
                 else [])
           else if name c = u ''br'' then [10]
           else if name c = u ''ul'' then
             concat (map (\<lambda>item. u ''* '' @ strip (convert_tag_to_md (Some item)) @ [10])
                         (find_all_li c))
           else if name c = u ''ol'' then
             concat (map (\<lambda>(i, item).
                            str_nat i @ u ''. '' @ strip (convert_tag_to_md (Some item)) @ [10])
                         (enumerate 1 (find_all_li c)))
           else if name c = u ''li'' then convert_tag_to_md (Some c)
           else if name c = u ''div'' then
             (let div_content = convert_tag_to_md (Some c)
              in if div_content \<noteq> [] then div_content @ [10] else [])
           else convert_tag_to_md (Some c))
       (children tag))"
  by pat_completeness auto

lemma size_child: "Element c \<in> set (children t) \<Longrightarrow> size c < size t"
proof (cases t)
  case (Tag n a cs)
  assume "Element c \<in> set (children t)"
  then have "Element c \<in> set cs" using Tag by simp
  then have "size (Element c) \<le> size_list size cs" by (rule size_list_estimation') simp
  then show ?thesis using Tag by simp
qed

lemma size_list_item: "item \<in> set (find_all_li c) \<Longrightarrow> size item < size c"
  by (auto simp: find_all_li_def size_child split: node.splits if_splits)

termination convert_tag_to_md
proof (relation "measure (\<lambda>t. case t of None \<Rightarrow> 0 | Some x \<Rightarrow> size x)")
  show "wf (measure (\<lambda>t. case t of None \<Rightarrow> 0 | Some x \<Rightarrow> size x))" by simp
next
  fix tag :: tag and x :: node and x2 :: tag and xa :: tag
  assume "x \<in> set (children tag)" "x = Element x2" "xa \<in> set (find_all_li x2)"
  then have "size xa < size x2" "size x2 < size tag"
    by (simp_all add: size_list_item size_child)
  then show "(Some xa, Some tag) \<in> measure (\<lambda>t. case t of None \<Rightarrow> 0 | Some x \<Rightarrow> size x)"
    by simp
next
  fix tag :: tag and x :: node and x2 :: tag and xa :: "nat \<times> tag" and xb :: nat and y :: tag
  assume "x \<in> set (children tag)" "x = Element x2"
    "xa \<in> set (enumerate 1 (find_all_li x2))" "(xb, y) = xa"
  then have "y \<in> set (find_all_li x2)" "size x2 < size tag"
    by (auto simp: in_set_enumerate_eq size_child)
  then have "size y < size x2" "size x2 < size tag" by (simp_all add: size_list_item)
  then show "(Some y, Some tag) \<in> measure (\<lambda>t. case t of None \<Rightarrow> 0 | Some x \<Rightarrow> size x)"
    by simp
qed (simp_all add: size_child)

text \<open>The element names that have a branch of their own in the converter.\<close>

definition handled_names :: "ustr set" where
  "handled_names = {u ''strong'', u ''b'', u ''em'', u ''i'', u ''code'', u ''pre'', u ''a'',
                    u ''br'', u ''ul'', u ''ol'', u ''li'', u ''div''}"

section \<open>Title and date\<close>

definition extract_first_meaningful_line :: "ustr \<Rightarrow> ustr option" where
  "extract_first_meaningful_line text =
     (let lines = map strip (filter (\<lambda>line. strip line \<noteq> []) (splitlines text))
      in case find (\<lambda>line. length line \<ge> 10) lines of
           Some line \<Rightarrow> Some line
         | None \<Rightarrow> (case lines of l # ls \<Rightarrow> Some l | [] \<Rightarrow> None))"

text \<open>The exceptions that the date block can raise; its \<open>except\<close> clause names both.\<close>

datatype exn = ValueError | IndexError

text \<open>
  \<open>int(s)\<close> on the text of a matched group: surrounding whitespace is ignored and every
  other code point must be a decimal digit.
\<close>

definition decimal_value :: "platform \<Rightarrow> nat \<Rightarrow> nat option" where
  "decimal_value P c =
     (if 48 \<le> c \<and> c \<le> 57 then Some (c - 48)
      else if c < 128 then None
      else unicode_decimal P c)"

fun digits_value :: "platform \<Rightarrow> nat \<Rightarrow> ustr \<Rightarrow> exn + nat" where
  "digits_value P acc [] = Inr acc"
| "digits_value P acc (c # cs) =
     (case decimal_value P c of
        None \<Rightarrow> Inl ValueError
      | Some d \<Rightarrow> digits_value P (10 * acc + d) cs)"

definition py_int :: "platform \<Rightarrow> ustr \<Rightarrow> exn + nat" where
  "py_int P s = (let t = strip s in if t = [] then Inl ValueError else digits_value P 0 t)"

text \<open>
  \<open>datetime.strptime(data_string, '%d.%m.%Y')\<close>. The library compiles the format to the
  regular expression
  \<^verbatim>\<open>(?P<d>3[0-1]|[1-2]\d|0[1-9]|[1-9]| [1-9])\.(?P<m>1[0-2]|0[1-9]|[1-9])\.(?P<Y>\d\d\d\d)\<close>,
  matches it at the start of the string, rejects a match that leaves text over, and then
  builds the date, which rejects a day that the month does not have. Each piece of the
  expression returns its matches in the order in which backtracking tries them, each
  with the text that follows; the match found is the first of the combined list.
\<close>

definition alt1 :: "(nat \<Rightarrow> bool) \<Rightarrow> ustr \<Rightarrow> (ustr \<times> ustr) list" where
  "alt1 p s = (case s of c # r \<Rightarrow> if p c then [([c], r)] else [] | [] \<Rightarrow> [])"

definition alt2 :: "(nat \<Rightarrow> bool) \<Rightarrow> (nat \<Rightarrow> bool) \<Rightarrow> ustr \<Rightarrow> (ustr \<times> ustr) list" where
  "alt2 p q s =
     (case s of
        c # d # r \<Rightarrow> if p c \<and> q d then [([c, d], r)] else []
      | [c] \<Rightarrow> []
      | [] \<Rightarrow> [])"

definition is_digit :: "platform \<Rightarrow> nat \<Rightarrow> bool" where
  "is_digit P c = (decimal_value P c \<noteq> None)"

definition one_to_nine :: "nat \<Rightarrow> bool" where
  "one_to_nine c = (49 \<le> c \<and> c \<le> 57)"

definition re_day :: "platform \<Rightarrow> ustr \<Rightarrow> (ustr \<times> ustr) list" where
  "re_day P s =
     alt2 (\<lambda>c. c = 51) (\<lambda>c. c \<in> {48, 49}) s
     @ alt2 (\<lambda>c. c \<in> {49, 50}) (is_digit P) s
     @ alt2 (\<lambda>c. c = 48) one_to_nine s
     @ alt1 one_to_nine s
     @ alt2 (\<lambda>c. c = 32) one_to_nine s"

definition re_month :: "ustr \<Rightarrow> (ustr \<times> ustr) list" where
  "re_month s =
     alt2 (\<lambda>c. c = 49) (\<lambda>c. c \<in> {48, 49, 50}) s
     @ alt2 (\<lambda>c. c = 48) one_to_nine s
     @ alt1 one_to_nine s"

definition re_year :: "platform \<Rightarrow> ustr \<Rightarrow> (ustr \<times> ustr) list" where
  "re_year P s =
     (case s of
        a # b # c # d # r \<Rightarrow>
          if is_digit P a \<and> is_digit P b \<and> is_digit P c \<and> is_digit P d
          then [([a, b, c, d], r)] else []
      | _ \<Rightarrow> [])"

definition re_dot :: "ustr \<Rightarrow> ustr list" where
  "re_dot s = (case s of c # r \<Rightarrow> if c = 46 then [r] else [] | [] \<Rightarrow> [])"

definition format_matches :: "platform \<Rightarrow> ustr \<Rightarrow> (ustr \<times> ustr \<times> ustr \<times> ustr) list" where
  "format_matches P s =
     [(d, m, y, r5). (d, r1) \<leftarrow> re_day P s, r2 \<leftarrow> re_dot r1, (m, r3) \<leftarrow> re_month r2,
                     r4 \<leftarrow> re_dot r3, (y, r5) \<leftarrow> re_year P r4]"

definition is_leap :: "nat \<Rightarrow> bool" where
  "is_leap y = (y mod 4 = 0 \<and> (y mod 100 \<noteq> 0 \<or> y mod 400 = 0))"

definition days_in_month :: "nat \<Rightarrow> nat \<Rightarrow> nat" where
  "days_in_month y m =
     (if m = 2 then (if is_leap y then 29 else 28)
      else if m \<in> {4, 6, 9, 11} then 30 else 31)"

definition valid_date :: "nat \<Rightarrow> nat \<Rightarrow> nat \<Rightarrow> bool" where
  "valid_date y m d = (1 \<le> y \<and> y \<le> 9999 \<and> 1 \<le> m \<and> m \<le> 12 \<and> 1 \<le> d \<and> d \<le> days_in_month y m)"

definition strptime_dmY :: "platform \<Rightarrow> ustr \<Rightarrow> exn + (nat \<times> nat \<times> nat)" where
  "strptime_dmY P data_string =
     (case format_matches P data_string of
        [] \<Rightarrow> Inl ValueError
      | (d, m, y, rest) # _ \<Rightarrow>
          if rest \<noteq> [] then Inl ValueError
          else (case (py_int P y, py_int P m, py_int P d) of
                  (Inr year, Inr month, Inr day) \<Rightarrow>
                    if valid_date year month day then Inr (year, month, day)
                    else Inl ValueError
                | _ \<Rightarrow> Inl ValueError))"

text \<open>
  \<open>date_obj.strftime('%Y-%m-%d')\<close>; \<open>%m\<close> and \<open>%d\<close> are two digits, and \<open>%Y\<close> is the
  year in decimal, padded or not as the C library decides when it has fewer than four
  digits.
\<close>

definition year_text :: "platform \<Rightarrow> nat \<Rightarrow> ustr" where
  "year_text P year = (if 1000 \<le> year then str_nat year else strftime_Y P year)"

definition strftime_Ymd :: "platform \<Rightarrow> nat \<times> nat \<times> nat \<Rightarrow> ustr" where
  "strftime_Ymd P date_obj =
     (case date_obj of (year, month, day) \<Rightarrow>
        year_text P year @ [45] @ zfill 2 (str_nat month) @ [45] @ zfill 2 (str_nat day))"

text \<open>The body of the \<open>try\<close> statement.\<close>

definition parse_date_title :: "platform \<Rightarrow> ustr \<Rightarrow> exn + ustr" where
  "parse_date_title P date_title =
     (case split_ws date_title of
        [] \<Rightarrow> Inl IndexError
      | token # _ \<Rightarrow>
          (case strptime_dmY P token of
             Inl e \<Rightarrow> Inl e
           | Inr date_obj \<Rightarrow> Inr (strftime_Ymd P date_obj)))"

text \<open>The date block of \<open>extract_title_and_date\<close>, from \<open>date_str = None\<close> to \<open>pass\<close>.\<close>

definition extract_date :: "platform \<Rightarrow> tag option \<Rightarrow> ustr option" where
  "extract_date P date_div =
     (case date_div of
        None \<Rightarrow> None
      | Some dd \<Rightarrow>
          (case parse_date_title P (get_attr dd (u ''title'') []) of
             Inr date_str \<Rightarrow> Some date_str
           | Inl ValueError \<Rightarrow> None
           | Inl IndexError \<Rightarrow> None))"

text \<open>
  A message element, seen through the three selections that the program makes on it:
  \<open>select_one('.text')\<close>, \<open>select_one('.from_name')\<close> and \<open>select_one('.date')\<close>.
\<close>

record message =
  text_div :: "tag option"
  from_name :: "tag option"
  date_div :: "tag option"

definition extract_title_and_date :: "platform \<Rightarrow> message \<Rightarrow> ustr option \<times> ustr option" where
  "extract_title_and_date P message =
     (case text_div message of
        None \<Rightarrow> (None, None)
      | Some td \<Rightarrow>
          (let text = convert_tag_to_md (Some td) in
           case extract_first_meaningful_line text of
             None \<Rightarrow> (None, None)
           | Some first_line \<Rightarrow>
               if first_line = [] then (None, None)
               else (let date_str = extract_date P (date_div message);
                         title = clean_filename P first_line
                     in (Some title, date_str))))"

section \<open>Tags\<close>

text \<open>
  The three tags are collected in a set and returned sorted; the model emits them in
  their sorted order, \<open>design\<close>, \<open>management\<close>, \<open>product\<close>. The keyword lists hold, beside
  the ASCII words, the Cyrillic words of the source as code points.
\<close>

definition get_tags_from_content :: "platform \<Rightarrow> ustr \<Rightarrow> ustr \<Rightarrow> ustr list" where
  "get_tags_from_content P text author =
     (let search_text = str_lower P (text @ [32] @ author) in
      (if list_ex (\<lambda>term. contains term search_text)
            [u ''design'', [1076, 1080, 1079, 1072, 1081, 1085], u ''ux'', u ''ui'']
       then [u ''design''] else [])
      @ (if list_ex (\<lambda>term. contains term search_text)
            [u ''team'', [1090, 1080, 1084, 1083, 1080, 1076],
             [1082, 1086, 1084, 1072, 1085, 1076]]
         then [u ''management''] else [])
      @ (if list_ex (\<lambda>term. contains term search_text)
            [u ''product'', [1087, 1088, 1086, 1076, 1072, 1082, 1090],
             [1087, 1088, 1086, 1076, 1091, 1082, 1090]]
         then [u ''product''] else []))"

section \<open>convert\_html\_to\_md\<close>

text \<open>\<open>re.sub(r'\n{3,}', '\n\n', md_content)\<close>\<close>

function sub_newlines :: "ustr \<Rightarrow> ustr" where
  "sub_newlines [] = []"
| "sub_newlines (c # cs) =
     (if c = 10 \<and> length (takeWhile (\<lambda>x. x = 10) (c # cs)) \<ge> 3
      then [10, 10] @ sub_newlines (dropWhile (\<lambda>x. x = 10) cs)
      else c # sub_newlines cs)"
  by pat_completeness auto

termination sub_newlines
  by (relation "measure length") (auto simp: le_imp_less_Suc length_dropWhile_le)

text \<open>\<open>sep.join(parts)\<close>\<close>

fun join :: "ustr \<Rightarrow> ustr list \<Rightarrow> ustr" where
  "join sep [] = []"
| "join sep [x] = x"
| "join sep (x # y # ys) = x @ sep @ join sep (y # ys)"

text \<open>
  The state of one run: the two variables that the loop carries from message to
  message, the counter, and the files written so far, each with its name and content,
  in the order of the writes.
\<close>

record state =
  last_author :: ustr
  used_filenames :: "ustr set"
  converted_count :: nat
  written :: "(ustr \<times> ustr) list"

definition initial_state :: state where
  "initial_state =
     \<lparr>last_author = u ''Unknown Author'', used_filenames = {}, converted_count = 0,
      written = []\<rparr>"

text \<open>The document of a message: the front matter and the converted body.\<close>

definition final_content :: "ustr option \<Rightarrow> ustr \<Rightarrow> ustr list \<Rightarrow> ustr \<Rightarrow> ustr" where
  "final_content date_str author tags md_content =
     (let frontmatter = [u ''---'']
            @ (case date_str of Some d \<Rightarrow> if d \<noteq> [] then [u ''date: '' @ d] else []
                              | None \<Rightarrow> [])
            @ [u ''author: '' @ [34] @ author @ [34]]
            @ (if tags \<noteq> [] then u ''tags:'' # map (\<lambda>tag. u ''  - '' @ tag) tags else [])
            @ [u ''---'' @ [10], md_content]
      in join [10] frontmatter)"

text \<open>One iteration of the loop over the messages.\<close>

definition process_message :: "platform \<Rightarrow> state \<Rightarrow> message \<Rightarrow> state" where
  "process_message P st message =
     (case text_div message of
        None \<Rightarrow> st
      | Some td \<Rightarrow>
          if strip (get_text td) = [] then st
          else
            (let author = (case from_name message of
                             Some author_div \<Rightarrow> strip (get_text author_div)
                           | None \<Rightarrow> last_author st);
                 md_content = sub_newlines (convert_tag_to_md (Some td));
                 tags = get_tags_from_content P md_content author
             in case extract_title_and_date P message of
                  (None, date_str) \<Rightarrow> st
                | (Some title, date_str) \<Rightarrow>
                    if title = [] then st
                    else
                      (let filename = title @ u ''.md'' in
                       if filename \<in> used_filenames st then st
                       else st\<lparr>used_filenames := insert filename (used_filenames st),
                               converted_count := converted_count st + 1,
                               written := written st
                                 @ [(filename, final_content date_str author tags md_content)]\<rparr>)))"

definition convert_html_to_md :: "platform \<Rightarrow> message list \<Rightarrow> state" where
  "convert_html_to_md P messages = foldl (process_message P) initial_state messages"

text \<open>
  Two readings of one iteration, used to state what a run writes: the filename that the
  iteration derives for a message (\<open>None\<close> when the message is skipped before the
  duplicate check), and the content that it writes for the message, given the value of
  \<open>last_author\<close>.
\<close>

definition filename_of :: "platform \<Rightarrow> message \<Rightarrow> ustr option" where
  "filename_of P message =
     (case text_div message of
        None \<Rightarrow> None
      | Some td \<Rightarrow>
          if strip (get_text td) = [] then None
          else (case extract_title_and_date P message of
                  (None, date_str) \<Rightarrow> None
                | (Some title, date_str) \<Rightarrow>
                    if title = [] then None else Some (title @ u ''.md'')))"

definition document_of :: "platform \<Rightarrow> ustr \<Rightarrow> message \<Rightarrow> ustr" where
  "document_of P carried message =
     (let author = (case from_name message of
                      Some author_div \<Rightarrow> strip (get_text author_div)
                    | None \<Rightarrow> carried);
          md_content = sub_newlines (convert_tag_to_md (text_div message));
          tags = get_tags_from_content P md_content author
      in final_content (snd (extract_title_and_date P message)) author tags md_content)"

text \<open>
  A message for the examples: a body that holds one piece of text, an author element
  that holds the author's name when there is one, and no date element.
\<close>

definition text_message :: "string \<Rightarrow> string option \<Rightarrow> message" where
  "text_message body author =
     \<lparr>text_div = Some (Tag (u ''div'') Map.empty [NavigableString (u body)]),
      from_name = map_option (\<lambda>a. Tag (u ''div'') Map.empty [NavigableString (u a)]) author,
      date_div = None\<rparr>"

text \<open>A date element for the examples: it holds the given \<open>title\<close> attribute.\<close>

definition dated :: "string \<Rightarrow> tag" where
  "dated v = Tag (u ''div'') [u ''title'' \<mapsto> u v] []"

section \<open>Auxiliary notions\<close>

text \<open>
  A text is \<open>spaced\<close> when each of its whitespace code points is a space that is followed
  by a code point that is not whitespace, or by nothing.
\<close>

fun spaced :: "ustr \<Rightarrow> bool" where
  "spaced [] = True"
| "spaced (c # cs) = ((isspace c \<longrightarrow> c = 32 \<and> (cs = [] \<or> \<not> isspace (hd cs))) \<and> spaced cs)"

section \<open>Whitespace, stripping and splitting\<close>

lemma isspace_32: "isspace 32" by (simp add: isspace_def)

lemma sub_whitespace_spaced_aux:
  "spaced (sub_whitespace b s) \<and> (b \<longrightarrow> sub_whitespace b s = [] \<or> \<not> isspace (hd (sub_whitespace b s)))"
  by (induction b s rule: sub_whitespace.induct) (auto simp: isspace_32)

lemma spaced_sub_whitespace: "spaced (sub_whitespace b s)"
  using sub_whitespace_spaced_aux by blast

lemma sub_whitespace_run_irrelevant:
  "s = [] \<or> \<not> isspace (hd s) \<Longrightarrow> sub_whitespace True s = sub_whitespace False s"
  by (cases s) auto

lemma sub_whitespace_spaced_id: "spaced s \<Longrightarrow> sub_whitespace False s = s"
proof (induction s)
  case Nil
  then show ?case by simp
next
  case (Cons c cs)
  then show ?case
    by (auto simp: sub_whitespace_run_irrelevant)
qed

lemma set_sub_whitespace: "set (sub_whitespace b s) \<subseteq> insert 32 (set s)"
  by (induction b s rule: sub_whitespace.induct) auto

lemma spaced_append_left: "spaced (xs @ ys) \<Longrightarrow> spaced xs"
proof (induction xs)
  case Nil
  then show ?case by simp
next
  case (Cons c cs)
  then show ?case by (cases cs) auto
qed

lemma spaced_append_right: "spaced (xs @ ys) \<Longrightarrow> spaced ys"
  by (induction xs) auto

lemma spaced_before_space:
  "spaced (r @ d # ys) \<Longrightarrow> isspace d \<Longrightarrow> r \<noteq> [] \<Longrightarrow> \<not> isspace (last r)"
proof (induction r)
  case Nil
  then show ?case by simp
next
  case (Cons c cs)
  then show ?case by (cases cs) auto
qed

lemma spaced_dropWhile: "spaced s \<Longrightarrow> spaced (dropWhile p s)"
  using spaced_append_right [of "takeWhile p s" "dropWhile p s"] by simp

lemma rev_dropWhile_rev_prefix: "rev (dropWhile p (rev s)) @ rev (takeWhile p (rev s)) = s"
proof -
  have "rev (takeWhile p (rev s) @ dropWhile p (rev s)) = s" by simp
  then show ?thesis by (simp only: rev_append)
qed

lemma spaced_rstrip: "spaced s \<Longrightarrow> spaced (rev (dropWhile p (rev s)))"
  using spaced_append_left [of "rev (dropWhile p (rev s))" "rev (takeWhile p (rev s))"]
  by (simp only: rev_dropWhile_rev_prefix)

lemma spaced_strip: "spaced s \<Longrightarrow> spaced (strip s)"
  by (simp add: strip_def spaced_rstrip spaced_dropWhile)

lemma strip_ends:
  "strip s = [] \<or> (\<not> isspace (hd (strip s)) \<and> \<not> isspace (last (strip s)))"
proof (cases "strip s = []")
  case True
  then show ?thesis by simp
next
  case False
  define t where "t = dropWhile isspace s"
  define r where "r = rev (dropWhile isspace (rev t))"
  have r: "strip s = r" by (simp add: strip_def r_def t_def)
  have rne: "r \<noteq> []" using False r by simp
  have tr: "r @ rev (takeWhile isspace (rev t)) = t"
    unfolding r_def by (rule rev_dropWhile_rev_prefix)
  have "t \<noteq> []" using tr rne by auto
  then have "\<not> isspace (hd t)" unfolding t_def by (simp add: hd_dropWhile)
  moreover have "hd t = hd r" using tr rne by (metis hd_append2)
  moreover have "dropWhile isspace (rev t) \<noteq> []" using rne r_def by simp
  then have "\<not> isspace (hd (dropWhile isspace (rev t)))" by (simp add: hd_dropWhile)
  then have "\<not> isspace (last r)" using rne by (simp add: r_def last_rev)
  ultimately show ?thesis using r by simp
qed

lemma strip_id: "s = [] \<or> (\<not> isspace (hd s) \<and> \<not> isspace (last s)) \<Longrightarrow> strip s = s"
proof (cases s)
  case Nil
  then show ?thesis by (simp add: strip_def)
next
  case (Cons c cs)
  assume "s = [] \<or> (\<not> isspace (hd s) \<and> \<not> isspace (last s))"
  with Cons have h: "\<not> isspace c" and l: "\<not> isspace (last s)" by auto
  have 1: "dropWhile isspace s = s" using Cons h by simp
  have "rev s \<noteq> []" using Cons by simp
  moreover have "hd (rev s) = last s" using Cons by (simp add: hd_rev)
  ultimately have 2: "dropWhile isspace (rev s) = rev s" using l
    by (metis dropWhile.simps(2) list.collapse)
  show ?thesis by (simp add: strip_def 1 2)
qed

lemma set_strip: "set (strip s) \<subseteq> set s"
proof -
  have "set (strip s) \<subseteq> set (dropWhile isspace s)"
    unfolding strip_def using set_dropWhileD by fastforce
  also have "\<dots> \<subseteq> set s" using set_dropWhileD by fastforce
  finally show ?thesis .
qed

lemma rsplit1_cases:
  "(sep \<notin> set t \<and> hd (rsplit1 sep t) = t) \<or>
   (\<exists>w. t = hd (rsplit1 sep t) @ sep # w \<and> sep \<notin> set w)"
proof (cases "dropWhile (\<lambda>c. c \<noteq> sep) (rev t) = []")
  case True
  then have "sep \<notin> set (rev t)" by (metis (mono_tags, lifting) dropWhile_eq_Nil_conv)
  then show ?thesis using True by (simp add: rsplit1_def)
next
  case False
  define front where "front = dropWhile (\<lambda>c. c \<noteq> sep) (rev t)"
  define bk where "bk = takeWhile (\<lambda>c. c \<noteq> sep) (rev t)"
  have fne: "front \<noteq> []" using False front_def by simp
  have "\<not> (hd front \<noteq> sep)" unfolding front_def using False by (rule hd_dropWhile)
  then have f: "front = sep # tl front" using fne by (cases front) auto
  have "rev t = bk @ front" by (simp add: bk_def front_def)
  then have "rev t = bk @ sep # tl front" using f by simp
  then have "rev (rev t) = rev (bk @ sep # tl front)" by simp
  then have t: "t = rev (tl front) @ sep # rev bk" by simp
  have "sep \<notin> set bk" unfolding bk_def by (metis (mono_tags, lifting) set_takeWhileD)
  then have b: "sep \<notin> set (rev bk)" by simp
  have "hd (rsplit1 sep t) = rev (tl front)"
    using False unfolding rsplit1_def front_def Let_def by (simp only: if_False list.sel)
  then show ?thesis using t b by metis
qed

section \<open>The filename normalizer\<close>

lemma clean_filename_normalized:
  "clean_filename P s =
     (if length (normalized P s) > 100 then hd (rsplit1 32 (take 100 (normalized P s)))
      else normalized P s)"
  by (simp add: clean_filename_def normalized_def Let_def)

lemma set_sub_special: "set (sub_special s) \<inter> special_chars = {}"
  by (auto simp: sub_special_def special_chars_def)

lemma set_rstrip: "set (rev (dropWhile p (rev s))) \<subseteq> set s"
proof -
  have "set (dropWhile p (rev s)) \<subseteq> set (rev s)" using set_dropWhileD by fastforce
  then show ?thesis by simp
qed

lemma set_sub_trailing_punct: "set (sub_trailing_punct s) \<subseteq> set s"
proof (cases "s \<noteq> [] \<and> last s = 10")
  case True
  then have s: "s = butlast s @ [10]" by (metis append_butlast_last_id)
  have "set (rev (dropWhile is_punct (rev (butlast s)))) \<subseteq> set (butlast s)" by (rule set_rstrip)
  then have "set (sub_trailing_punct s) \<subseteq> set (butlast s @ [10])"
    using True by (auto simp: sub_trailing_punct_def)
  then show ?thesis using s by simp
next
  case False
  then show ?thesis using set_rstrip [of is_punct s] by (auto simp: sub_trailing_punct_def)
qed

lemma special_free_normalized: "set (normalized P s) \<inter> special_chars = {}"
proof -
  let ?a = "sub_special (replace_emoji P s)"
  have "set (normalized P s) \<subseteq> set (sub_whitespace False (sub_trailing_punct ?a))"
    unfolding normalized_def by (rule set_strip)
  also have "\<dots> \<subseteq> insert 32 (set (sub_trailing_punct ?a))" by (rule set_sub_whitespace)
  also have "\<dots> \<subseteq> insert 32 (set ?a)" using set_sub_trailing_punct [of ?a] by auto
  finally have "set (normalized P s) \<subseteq> insert 32 (set ?a)" .
  moreover have "32 \<notin> special_chars" by (simp add: special_chars_def)
  ultimately show ?thesis using set_sub_special [of "replace_emoji P s"] by auto
qed

lemma spaced_normalized: "spaced (normalized P s)"
  unfolding normalized_def by (rule spaced_strip) (rule spaced_sub_whitespace)

lemma strip_normalized: "strip (normalized P s) = normalized P s"
  using strip_ends [of "sub_whitespace False (sub_trailing_punct (sub_special (replace_emoji P s)))"]
  unfolding normalized_def [symmetric] by (rule strip_id)

lemma strip_fixed_ends: "strip s = s \<Longrightarrow> s = [] \<or> (\<not> isspace (hd s) \<and> \<not> isspace (last s))"
  using strip_ends [of s] by simp

text \<open>What the back-off returns, from a tidy text.\<close>

lemma backoff_tidy:
  fixes n :: nat
  assumes sp: "spaced c" and st: "strip c = c" and r_def: "r = hd (rsplit1 32 (take n c))"
  shows "spaced r \<and> strip r = r \<and> set r \<subseteq> set c \<and> length r \<le> n"
proof -
  let ?t = "take n c"
  have tc: "?t @ drop n c = c" by simp
  have spt: "spaced ?t" using sp spaced_append_left [of ?t "drop n c"] by simp
  consider (whole) "32 \<notin> set ?t" "r = ?t" | (cut) w where "?t = r @ 32 # w" "32 \<notin> set w"
    using rsplit1_cases [of 32 ?t] r_def by auto
  then show ?thesis
  proof cases
    case whole
    have "?t = [] \<or> (\<not> isspace (hd ?t) \<and> \<not> isspace (last ?t))"
    proof (cases "?t = []")
      case True
      then show ?thesis by simp
    next
      case False
      then have cne: "c \<noteq> []" by auto
      then have "\<not> isspace (hd c)" using strip_fixed_ends [OF st] by simp
      moreover have "hd ?t = hd c" using False by (metis hd_append2 tc)
      moreover have "last ?t \<in> set ?t" using False by simp
      then have "\<not> isspace (last ?t)"
      proof -
        assume l: "last ?t \<in> set ?t"
        obtain xs ys where "?t = xs @ last ?t # ys" using l by (meson split_list)
        then have "spaced (last ?t # ys)" using spt spaced_append_right by metis
        then have "isspace (last ?t) \<longrightarrow> last ?t = 32" by simp
        then show ?thesis using l whole(1) by auto
      qed
      ultimately show ?thesis by simp
    qed
    then have "strip ?t = ?t" by (rule strip_id)
    then show ?thesis using whole spt by (auto dest: in_set_takeD)
  next
    case cut
    have spr: "spaced r" using spt cut(1) spaced_append_left by metis
    have sub: "set r \<subseteq> set c"
    proof -
      have "set r \<subseteq> set ?t" using cut(1) by (metis Un_iff set_append subsetI)
      then show ?thesis using set_take_subset by fastforce
    qed
    have len: "length r \<le> n"
    proof -
      have "length r \<le> length ?t" using cut(1) by (metis length_append le_add1)
      then show ?thesis by simp
    qed
    have "r = [] \<or> (\<not> isspace (hd r) \<and> \<not> isspace (last r))"
    proof (cases "r = []")
      case True
      then show ?thesis by simp
    next
      case False
      have c: "c = r @ 32 # (w @ drop n c)" using tc cut(1) by (metis append.assoc append_Cons)
      then have "c \<noteq> []" by auto
      then have "\<not> isspace (hd c)" using strip_fixed_ends [OF st] by simp
      moreover have "hd c = hd r" using c False by (metis hd_append2)
      moreover have "\<not> isspace (last r)"
        using spaced_before_space [of r 32 w] spt cut(1) False isspace_32 by simp
      ultimately show ?thesis by simp
    qed
    then have "strip r = r" by (rule strip_id)
    then show ?thesis using spr sub len by simp
  qed
qed

lemma clean_filename_tidy:
  "spaced (clean_filename P s) \<and> strip (clean_filename P s) = clean_filename P s \<and>
   set (clean_filename P s) \<subseteq> set (normalized P s) \<and> length (clean_filename P s) \<le> 100"
proof (cases "length (normalized P s) > 100")
  case True
  then show ?thesis
    using backoff_tidy [OF spaced_normalized [of P s] strip_normalized [of P s] refl, of 100]
    by (simp add: clean_filename_normalized)
next
  case False
  then show ?thesis
    using spaced_normalized [of P s] strip_normalized [of P s]
    by (simp add: clean_filename_normalized)
qed

lemma sub_special_id: "set s \<inter> special_chars = {} \<Longrightarrow> sub_special s = s"
  unfolding sub_special_def by (rule map_idI) auto

lemma rstrip_id: "s = [] \<or> \<not> p (last s) \<Longrightarrow> rev (dropWhile p (rev s)) = s"
proof (cases s rule: rev_cases)
  case Nil
  then show ?thesis by simp
next
  case (snoc xs x)
  assume "s = [] \<or> \<not> p (last s)"
  then show ?thesis using snoc by simp
qed

lemma length_rstrip: "length (rev (dropWhile p (rev s))) \<le> length s"
  by (simp add: length_dropWhile_le [of p "rev s", simplified])

lemma rstrip_shorter: "s \<noteq> [] \<Longrightarrow> p (last s) \<Longrightarrow> length (rev (dropWhile p (rev s))) < length s"
proof (cases s rule: rev_cases)
  case Nil
  assume "s \<noteq> []"
  then show ?thesis using Nil by simp
next
  case (snoc xs x)
  assume "p (last s)"
  then have "dropWhile p (rev s) = dropWhile p (rev xs)" using snoc by simp
  moreover have "length (dropWhile p (rev xs)) \<le> length (rev xs)" by (rule length_dropWhile_le)
  ultimately show ?thesis using snoc by simp
qed

lemma length_sub_whitespace: "length (sub_whitespace b s) \<le> length s"
  by (induction b s rule: sub_whitespace.induct) auto

lemma length_strip: "length (strip s) \<le> length s"
proof -
  have "length (strip s) \<le> length (dropWhile isspace s)"
    unfolding strip_def by (rule length_rstrip)
  also have "\<dots> \<le> length s" by (rule length_dropWhile_le)
  finally show ?thesis .
qed

lemma length_clean_filename_le: "length (clean_filename P s) \<le> length (normalized P s)"
  using clean_filename_tidy [of P s] by (simp add: clean_filename_normalized split: if_splits)

lemma length_normalized_le:
  "length (normalized P s) \<le> length (sub_trailing_punct (sub_special (replace_emoji P s)))"
  unfolding normalized_def using length_strip length_sub_whitespace le_trans by blast

lemma clean_filename_again:
  assumes emoji: "replace_emoji P (clean_filename P s) = clean_filename P s"
  shows "(clean_filename P (clean_filename P s) = clean_filename P s) =
         (clean_filename P s = [] \<or> \<not> is_punct (last (clean_filename P s)))"
proof -
  define r where "r = clean_filename P s"
  have tidy: "spaced r" "strip r = r" "length r \<le> 100"
    using clean_filename_tidy [of P s] by (simp_all add: r_def)
  have free: "set r \<inter> special_chars = {}"
    using clean_filename_tidy [of P s] special_free_normalized [of P s] unfolding r_def by blast
  have a: "sub_special (replace_emoji P r) = r"
    using emoji free by (simp add: r_def [symmetric] sub_special_id)
  have no_nl: "\<not> (r \<noteq> [] \<and> last r = 10)"
  proof
    assume "r \<noteq> [] \<and> last r = 10"
    then have "10 \<in> set r" using last_in_set by metis
    then show False using free by (auto simp: special_chars_def)
  qed
  have b: "sub_trailing_punct r = rev (dropWhile is_punct (rev r))"
    using no_nl unfolding sub_trailing_punct_def by (simp only: if_False)
  show ?thesis unfolding r_def [symmetric]
  proof
    assume same: "clean_filename P r = r"
    show "r = [] \<or> \<not> is_punct (last r)"
    proof (rule ccontr)
      assume "\<not> (r = [] \<or> \<not> is_punct (last r))"
      then have "r \<noteq> []" and "is_punct (last r)" by simp_all
      then have "length (rev (dropWhile is_punct (rev r))) < length r" by (rule rstrip_shorter)
      then have "length (sub_trailing_punct r) < length r" by (simp only: b)
      then have "length (normalized P r) < length r"
        using length_normalized_le [of P r] a by simp
      then have "length (clean_filename P r) < length r"
        using length_clean_filename_le [of P r] by simp
      then show False using same by simp
    qed
  next
    assume "r = [] \<or> \<not> is_punct (last r)"
    then have "sub_trailing_punct r = r" using b rstrip_id [of r is_punct] by simp
    then have "normalized P r = r"
      using a tidy by (simp add: normalized_def sub_whitespace_spaced_id)
    then show "clean_filename P r = r" using tidy by (simp add: clean_filename_normalized)
  qed
qed

lemmas text_simps = u_def isspace_def is_punct_def special_chars_def strip_def sub_special_def
  sub_trailing_punct_def rsplit1_def normalized_def clean_filename_def ascii_platform_def Let_def

lemma spaced_no_space: "\<forall>c\<in>set s. \<not> isspace c \<Longrightarrow> spaced s"
  by (induction s) auto

lemma spaced_word_append: "\<forall>c\<in>set xs. \<not> isspace c \<Longrightarrow> spaced (xs @ d # ys) = spaced (d # ys)"
proof (induction xs)
  case Nil
  then show ?case by simp
next
  case (Cons c cs)
  then show ?case by (cases cs) auto
qed

lemma normalized_id:
  assumes "replace_emoji P s = s" and "set s \<inter> special_chars = {}"
    and "s = [] \<or> \<not> is_punct (last s)" and "spaced s" and "strip s = s"
  shows "normalized P s = s"
proof -
  have "\<not> (s \<noteq> [] \<and> last s = 10)"
  proof
    assume "s \<noteq> [] \<and> last s = 10"
    then have "10 \<in> set s" using last_in_set by metis
    then show False using assms(2) by (auto simp: special_chars_def)
  qed
  then have "sub_trailing_punct s = rev (dropWhile is_punct (rev s))"
    unfolding sub_trailing_punct_def by (simp only: if_False)
  then have "sub_trailing_punct s = s" using assms(3) rstrip_id [of s is_punct] by simp
  then show ?thesis
    using assms by (simp add: normalized_def sub_whitespace_spaced_id sub_special_id)
qed

lemma normalized_long_word: "normalized ascii_platform (replicate 101 97) = replicate 101 97"
proof (rule normalized_id)
  show "replace_emoji ascii_platform (replicate 101 97) = replicate 101 97"
    by (simp add: ascii_platform_def)
  show "set (replicate 101 97) \<inter> special_chars = {}" by (simp add: special_chars_def)
  show "replicate 101 97 = [] \<or> \<not> is_punct (last (replicate 101 97))"
    by (simp add: is_punct_def)
  show "spaced (replicate 101 97)" by (rule spaced_no_space) (simp add: isspace_def)
  show "strip (replicate 101 97) = replicate 101 97"
    by (rule strip_id) (simp add: isspace_def hd_replicate)
qed

lemma rsplit1_no_sep: "sep \<notin> set t \<Longrightarrow> hd (rsplit1 sep t) = t"
  using rsplit1_cases [of sep t] by (metis in_set_conv_decomp)

lemma normalized_two_words:
  "normalized ascii_platform (replicate 60 97 @ 32 # replicate 60 98)
     = replicate 60 97 @ 32 # replicate 60 98"
proof (rule normalized_id)
  let ?s = "replicate 60 97 @ 32 # replicate 60 (98::nat)"
  show "replace_emoji ascii_platform ?s = ?s" by (simp add: ascii_platform_def)
  show "set ?s \<inter> special_chars = {}" by (simp add: special_chars_def)
  show "?s = [] \<or> \<not> is_punct (last ?s)" by (simp add: is_punct_def)
  have "spaced (32 # replicate 60 98)"
    using spaced_no_space [of "replicate 60 98"] by (simp add: isspace_def hd_replicate)
  then show "spaced ?s" by (subst spaced_word_append) (simp_all add: isspace_def)
  show "strip ?s = ?s" by (rule strip_id) (simp add: isspace_def hd_append hd_replicate)
qed

subsection \<open>Idempotence\<close>

text \<open>
  C2, as stated, fails: normalizing \<open>Really!?\<close> gives \<open>Really!\<close> (the question mark
  becomes a space before the trailing punctuation is removed, and is then trimmed), and
  normalizing that again gives \<open>Really\<close>.
\<close>

theorem clean_filename_not_idempotent:
  "clean_filename ascii_platform (u ''Really!?'') = u ''Really!'' \<and>
   clean_filename ascii_platform (clean_filename ascii_platform (u ''Really!?'')) = u ''Really''"
  by (simp add: text_simps)

text \<open>
  C2, amended: when the normalized name holds no emoji, normalizing it again returns it
  unchanged exactly when it does not end in one of the punctuation marks
  \<open>. , ! ? ; :\<close> (the empty name included).
\<close>

theorem clean_filename_idempotent_amended:
  assumes "replace_emoji P (clean_filename P s) = clean_filename P s"
  shows "(clean_filename P (clean_filename P s) = clean_filename P s) =
         (clean_filename P s = [] \<or> \<not> is_punct (last (clean_filename P s)))"
  using assms by (rule clean_filename_again)

theorem clean_filename_idempotent_amended_witness:
  "replace_emoji ascii_platform (clean_filename ascii_platform (u ''Hello,  world!''))
     = clean_filename ascii_platform (u ''Hello,  world!'')
   \<and> clean_filename ascii_platform (u ''Hello,  world!'') = u ''Hello, world''
   \<and> clean_filename ascii_platform (clean_filename ascii_platform (u ''Hello,  world!''))
     = clean_filename ascii_platform (u ''Hello,  world!'')"
proof -
  have e: "replace_emoji ascii_platform (clean_filename ascii_platform (u ''Hello,  world!''))
     = clean_filename ascii_platform (u ''Hello,  world!'')"
    by (simp add: ascii_platform_def)
  have v: "clean_filename ascii_platform (u ''Hello,  world!'') = u ''Hello, world''"
    by (simp add: text_simps)
  have "\<not> is_punct (last (clean_filename ascii_platform (u ''Hello,  world!'')))"
    unfolding v by (simp add: u_def is_punct_def)
  then show ?thesis using clean_filename_idempotent_amended [OF e] e v by simp
qed

subsection \<open>The length limit\<close>

text \<open>
  C3, as stated, fails: a text of 101 letters \<open>a\<close> is one word, its normalized form is
  the text itself, and the name returned is its first 100 letters, cut inside the word.
\<close>

theorem clean_filename_cuts_mid_word:
  "normalized ascii_platform (replicate 101 97) = replicate 101 97
   \<and> clean_filename ascii_platform (replicate 101 97) = replicate 100 97"
proof -
  have "hd (rsplit1 32 (take 100 (replicate 101 97))) = take 100 (replicate 101 97)"
    by (rule rsplit1_no_sep) simp
  then show ?thesis by (simp add: clean_filename_normalized normalized_long_word)
qed

text \<open>
  C3, amended: when the normalized form is longer than 100 code points, it is cut to its
  first 100; if that prefix holds a space, the name returned is the part of the prefix
  before its last space, and what is discarded after that space holds no space; if the
  prefix holds no space, the name returned is the whole prefix.
\<close>

theorem clean_filename_backoff:
  assumes "length (normalized P s) > 100"
  shows "(32 \<in> set (take 100 (normalized P s)) \<longrightarrow>
            (\<exists>w. take 100 (normalized P s) = clean_filename P s @ 32 # w \<and> 32 \<notin> set w))
       \<and> (32 \<notin> set (take 100 (normalized P s)) \<longrightarrow>
            clean_filename P s = take 100 (normalized P s))"
proof -
  have r: "clean_filename P s = hd (rsplit1 32 (take 100 (normalized P s)))"
    using assms by (simp add: clean_filename_normalized)
  show ?thesis
    using rsplit1_cases [of 32 "take 100 (normalized P s)"] unfolding r [symmetric] by auto
qed

theorem clean_filename_backoff_witness:
  "length (normalized ascii_platform (replicate 60 97 @ 32 # replicate 60 98)) > 100
   \<and> 32 \<in> set (take 100 (normalized ascii_platform (replicate 60 97 @ 32 # replicate 60 98)))
   \<and> (\<exists>w. take 100 (normalized ascii_platform (replicate 60 97 @ 32 # replicate 60 98))
            = clean_filename ascii_platform (replicate 60 97 @ 32 # replicate 60 98) @ 32 # w
          \<and> 32 \<notin> set w)"
proof -
  let ?s = "replicate 60 97 @ 32 # replicate 60 (98::nat)"
  have l: "length (normalized ascii_platform ?s) > 100" by (simp add: normalized_two_words)
  have m: "32 \<in> set (take 100 (normalized ascii_platform ?s))"
    by (simp add: normalized_two_words)
  show ?thesis using clean_filename_backoff [OF l] l m by blast
qed

subsection \<open>Safety of the name\<close>

text \<open>
  C4: for every input and whatever the emoji library removes, the name returned holds
  none of \<open>< > : " / \ | ? *\<close>, no newline and no carriage return, is unchanged by
  \<open>strip()\<close>, so has no whitespace at either end, and has at most 100 code points.
\<close>

theorem clean_filename_safe:
  "set (clean_filename P s) \<inter> {60, 62, 58, 34, 47, 92, 124, 63, 42, 10, 13} = {}
   \<and> strip (clean_filename P s) = clean_filename P s
   \<and> length (clean_filename P s) \<le> 100"
proof -
  have "set (clean_filename P s) \<inter> special_chars = {}"
    using clean_filename_tidy [of P s] special_free_normalized [of P s] by blast
  then show ?thesis using clean_filename_tidy [of P s] by (simp add: special_chars_def)
qed

section \<open>The newline collapse\<close>

lemma sub_newlines_plain: "10 \<notin> set s \<Longrightarrow> sub_newlines s = s"
  by (induction s) auto

lemma newline_run_start:
  "post = [] \<or> hd post \<noteq> 10 \<Longrightarrow>
   takeWhile (\<lambda>x. x = 10) (replicate n 10 @ post) = replicate n 10
   \<and> dropWhile (\<lambda>x. x = 10) (replicate n 10 @ post) = post"
  by (induction n) (cases post; auto)+

lemma sub_newlines_run_start:
  assumes "post = [] \<or> hd post \<noteq> 10"
  shows "sub_newlines (replicate n 10 @ post)
         = replicate (if 3 \<le> n then 2 else n) 10 @ sub_newlines post"
proof (cases n)
  case 0
  then show ?thesis by simp
next
  case (Suc k)
  have t: "takeWhile (\<lambda>x. x = 10) (10 # replicate k 10 @ post) = replicate (Suc k) 10"
    using newline_run_start [OF assms, of "Suc k"] by simp
  have d: "dropWhile (\<lambda>x. x = 10) (replicate k 10 @ post) = post"
    using newline_run_start [OF assms, of k] by simp
  show ?thesis
  proof (cases "3 \<le> n")
    case True
    then have "sub_newlines (10 # replicate k 10 @ post) = [10, 10] @ sub_newlines post"
      using Suc by (simp only: sub_newlines.simps t d length_replicate) simp
    then show ?thesis using True Suc by (simp add: numeral_2_eq_2)
  next
    case False
    then consider "k = 0" | "k = 1" using Suc by linarith
    then show ?thesis
    proof cases
      case 1
      then show ?thesis using Suc assms by (cases post) auto
    next
      case 2
      then show ?thesis using Suc assms by (cases post) auto
    qed
  qed
qed

lemma sub_newlines_append:
  "pre = [] \<or> last pre \<noteq> 10 \<Longrightarrow> sub_newlines (pre @ rest) = sub_newlines pre @ sub_newlines rest"
proof (induction pre rule: sub_newlines.induct)
  case 1
  then show ?case by simp
next
  case (2 c cs)
  show ?case
  proof (cases "cs = []")
    case True
    then have "c \<noteq> 10" using 2(3) by simp
    then show ?thesis using True by simp
  next
    case False
    then have l: "last cs \<noteq> 10" using 2(3) by simp
    then have ex: "last cs \<in> set cs \<and> \<not> (last cs = 10)" using False by simp
    have t: "takeWhile (\<lambda>x. x = 10) (cs @ rest) = takeWhile (\<lambda>x. x = 10) cs"
      using ex by (metis (mono_tags, lifting) takeWhile_append1)
    have d: "dropWhile (\<lambda>x. x = 10) (cs @ rest) = dropWhile (\<lambda>x. x = 10) cs @ rest"
      using ex by (metis (mono_tags, lifting) dropWhile_append1)
    have dne: "dropWhile (\<lambda>x. x = 10) cs \<noteq> []"
      using ex by (metis (mono_tags, lifting) dropWhile_eq_Nil_conv)
    have dl: "last (dropWhile (\<lambda>x. x = 10) cs) \<noteq> 10"
      using dne l by (metis last_appendR takeWhile_dropWhile_id)
    show ?thesis
    proof (cases "c = 10 \<and> 3 \<le> length (takeWhile (\<lambda>x. x = 10) (c # cs))")
      case True
      have "sub_newlines (dropWhile (\<lambda>x. x = 10) cs @ rest)
                 = sub_newlines (dropWhile (\<lambda>x. x = 10) cs) @ sub_newlines rest"
        by (rule 2(1) [OF True]) (simp add: dl)
      moreover have "c = 10" and "2 \<le> length (takeWhile (\<lambda>x. x = 10) cs)"
        using True by auto
      ultimately show ?thesis using t d by simp
    next
      case False
      have "sub_newlines (cs @ rest) = sub_newlines cs @ sub_newlines rest"
        by (rule 2(2) [OF False]) (simp add: l)
      moreover have "c \<noteq> 10 \<or> \<not> 2 \<le> length (takeWhile (\<lambda>x. x = 10) cs)"
        using False by auto
      ultimately show ?thesis using t by auto
    qed
  qed
qed

text \<open>
C6: the newline collapse leaves a text without newlines as it is, and it treats every
  maximal run of newlines on its own (a run of \<open>n\<close> newlines between a part that does
  not end in a newline and a part that does not start with one): a run of three or
  more becomes exactly two newlines, a run of one or two stays as it is.
\<close>

theorem sub_newlines_runs:
  "(10 \<notin> set s \<longrightarrow> sub_newlines s = s)
   \<and> ((pre = [] \<or> last pre \<noteq> 10) \<and> (post = [] \<or> hd post \<noteq> 10) \<longrightarrow>
        sub_newlines (pre @ replicate n 10 @ post)
        = sub_newlines pre @ replicate (if 3 \<le> n then 2 else n) 10 @ sub_newlines post)"
  using sub_newlines_plain [of s] sub_newlines_append [of pre "replicate n 10 @ post"]
    sub_newlines_run_start [of post n]
  by simp

theorem sub_newlines_runs_witness:
  "10 \<notin> set (u ''ab'') \<and> sub_newlines (u ''ab'') = u ''ab''
   \<and> last (u ''a'') \<noteq> 10 \<and> hd (u ''b'') \<noteq> 10
   \<and> sub_newlines (u ''a'' @ replicate 5 10 @ u ''b'') = u ''a'' @ [10, 10] @ u ''b''
   \<and> sub_newlines (u ''a'' @ replicate 2 10 @ u ''b'') = u ''a'' @ [10, 10] @ u ''b''
   \<and> sub_newlines (u ''a'' @ replicate 1 10 @ u ''b'') = u ''a'' @ [10] @ u ''b''"
  using sub_newlines_runs [of "u ''ab''" "u ''a''" "u ''b''" 5]
    sub_newlines_runs [of "u ''ab''" "u ''a''" "u ''b''" 2]
    sub_newlines_runs [of "u ''ab''" "u ''a''" "u ''b''" 1]
  by (simp add: u_def numeral_2_eq_2)

section \<open>The converter and the skip test\<close>

lemma convert_children_append:
  "convert_tag_to_md (Some (Tag n a (xs @ ys)))
   = convert_tag_to_md (Some (Tag n a xs)) @ convert_tag_to_md (Some (Tag n a ys))"
  by simp

lemma strip_all_space: "\<forall>x\<in>set s. isspace x \<Longrightarrow> strip s = []"
proof -
  assume "\<forall>x\<in>set s. isspace x"
  then have "dropWhile isspace s = []" by simp
  then show ?thesis unfolding strip_def by (simp only: rev.simps dropWhile.simps)
qed

lemma tag_names_distinct:
  "u ''em'' \<noteq> u ''strong''" "u ''em'' \<noteq> u ''b''" "u ''i'' \<noteq> u ''strong''" "u ''i'' \<noteq> u ''b''"
  by (simp_all add: u_def)

lemma convert_bold:
  "name c \<in> {u ''strong'', u ''b''} \<Longrightarrow>
   convert_tag_to_md (Some (Tag n a [Element c]))
   = (if strip (convert_tag_to_md (Some c)) = [] then []
      else u ''**'' @ strip (convert_tag_to_md (Some c)) @ u ''**'')"
  by (simp add: Let_def)

lemma convert_italic:
  "name c \<in> {u ''em'', u ''i''} \<Longrightarrow>
   convert_tag_to_md (Some (Tag n a [Element c]))
   = (if strip (convert_tag_to_md (Some c)) = [] then []
      else u ''*'' @ strip (convert_tag_to_md (Some c)) @ u ''*'')"
  using tag_names_distinct by (auto simp: Let_def)

text \<open>
C7: a \<open>strong\<close> or \<open>b\<close> child contributes, at its place among the children, its
  converted and stripped content between \<open>**\<close> and \<open>**\<close>, an \<open>em\<close> or \<open>i\<close> child the
  same between \<open>*\<close> and \<open>*\<close>; when the stripped content is empty the child contributes
  nothing, and content made of whitespace only is stripped to the empty text.
\<close>

theorem bold_italic_markers:
  "(name c \<in> {u ''strong'', u ''b''} \<longrightarrow>
      convert_tag_to_md (Some (Tag n a (before @ Element c # after)))
      = convert_tag_to_md (Some (Tag n a before))
        @ (if strip (convert_tag_to_md (Some c)) = [] then []
           else u ''**'' @ strip (convert_tag_to_md (Some c)) @ u ''**'')
        @ convert_tag_to_md (Some (Tag n a after)))
   \<and> (name c \<in> {u ''em'', u ''i''} \<longrightarrow>
      convert_tag_to_md (Some (Tag n a (before @ Element c # after)))
      = convert_tag_to_md (Some (Tag n a before))
        @ (if strip (convert_tag_to_md (Some c)) = [] then []
           else u ''*'' @ strip (convert_tag_to_md (Some c)) @ u ''*'')
        @ convert_tag_to_md (Some (Tag n a after)))
   \<and> ((\<forall>x\<in>set (convert_tag_to_md (Some c)). isspace x) \<longrightarrow>
        strip (convert_tag_to_md (Some c)) = [])"
proof -
  have split: "convert_tag_to_md (Some (Tag n a (before @ Element c # after)))
      = convert_tag_to_md (Some (Tag n a before)) @ convert_tag_to_md (Some (Tag n a [Element c]))
        @ convert_tag_to_md (Some (Tag n a after))"
    using convert_children_append [of n a before "[Element c] @ after"]
      convert_children_append [of n a "[Element c]" after]
    by simp
  show ?thesis
    using convert_bold [of c n a] convert_italic [of c n a]
      strip_all_space [of "convert_tag_to_md (Some c)"]
    unfolding split by blast
qed

theorem bold_italic_markers_witness:
  "name (Tag (u ''b'') Map.empty [NavigableString (u ''  '')]) \<in> {u ''strong'', u ''b''}
   \<and> convert_tag_to_md (Some (Tag (u ''b'') Map.empty [NavigableString (u ''  '')])) = u ''  ''
   \<and> convert_tag_to_md (Some (Tag (u ''div'') Map.empty
        ([NavigableString (u ''x'')]
         @ Element (Tag (u ''b'') Map.empty [NavigableString (u ''  '')])
         # [NavigableString (u ''y'')]))) = u ''xy''
   \<and> name (Tag (u ''i'') Map.empty [NavigableString (u '' hi '')]) \<in> {u ''em'', u ''i''}
   \<and> convert_tag_to_md (Some (Tag (u ''div'') Map.empty
        ([NavigableString (u ''x'')]
         @ Element (Tag (u ''i'') Map.empty [NavigableString (u '' hi '')])
         # [NavigableString (u ''y'')]))) = u ''x*hi*y''"
  using bold_italic_markers [of "Tag (u ''b'') Map.empty [NavigableString (u ''  '')]"
      "u ''div''" Map.empty "[NavigableString (u ''x'')]" "[NavigableString (u ''y'')]"]
    bold_italic_markers [of "Tag (u ''i'') Map.empty [NavigableString (u '' hi '')]"
      "u ''div''" Map.empty "[NavigableString (u ''x'')]" "[NavigableString (u ''y'')]"]
  by (simp add: u_def strip_def isspace_def)

lemma convert_link_without_target:
  "name c = u ''a'' \<Longrightarrow> attrs c (u ''href'') = None \<or> attrs c (u ''href'') = Some [] \<Longrightarrow>
   convert_tag_to_md (Some (Tag n a [Element c])) = []"
  by (auto simp: u_def get_attr_def Let_def)

lemma convert_other:
  "name c \<notin> handled_names \<Longrightarrow>
   convert_tag_to_md (Some (Tag n a [Element c])) = convert_tag_to_md (Some c)"
  by (simp add: handled_names_def)

text \<open>
C10: an \<open>a\<close> child whose \<open>href\<close> is missing or empty contributes nothing, whatever
  text it holds; a child whose name has no branch of its own contributes the conversion
  of its children.
\<close>

theorem link_without_target_dropped:
  "(name c = u ''a'' \<and> (attrs c (u ''href'') = None \<or> attrs c (u ''href'') = Some []) \<longrightarrow>
      convert_tag_to_md (Some (Tag n a (before @ Element c # after)))
      = convert_tag_to_md (Some (Tag n a before)) @ convert_tag_to_md (Some (Tag n a after)))
   \<and> (name c \<notin> handled_names \<longrightarrow>
      convert_tag_to_md (Some (Tag n a (before @ Element c # after)))
      = convert_tag_to_md (Some (Tag n a before)) @ convert_tag_to_md (Some c)
        @ convert_tag_to_md (Some (Tag n a after)))"
proof -
  have split: "convert_tag_to_md (Some (Tag n a (before @ Element c # after)))
      = convert_tag_to_md (Some (Tag n a before)) @ convert_tag_to_md (Some (Tag n a [Element c]))
        @ convert_tag_to_md (Some (Tag n a after))"
    using convert_children_append [of n a before "[Element c] @ after"]
      convert_children_append [of n a "[Element c]" after]
    by simp
  show ?thesis
    using convert_link_without_target [of c n a] convert_other [of c n a]
    unfolding split by auto
qed

theorem link_without_target_dropped_witness:
  "name (Tag (u ''a'') Map.empty [NavigableString (u ''click here'')]) = u ''a''
   \<and> attrs (Tag (u ''a'') Map.empty [NavigableString (u ''click here'')]) (u ''href'') = None
   \<and> get_text (Tag (u ''a'') Map.empty [NavigableString (u ''click here'')]) = u ''click here''
   \<and> convert_tag_to_md (Some (Tag (u ''div'') Map.empty
        ([NavigableString (u ''see '')]
         @ Element (Tag (u ''a'') Map.empty [NavigableString (u ''click here'')])
         # [NavigableString (u '' now'')]))) = u ''see  now''
   \<and> convert_tag_to_md (Some (Tag (u ''div'') Map.empty
        ([NavigableString (u ''see '')]
         @ Element (Tag (u ''span'') Map.empty [NavigableString (u ''click here'')])
         # [NavigableString (u '' now'')]))) = u ''see click here now''"
  using link_without_target_dropped [of "Tag (u ''a'') Map.empty [NavigableString (u ''click here'')]"
      "u ''div''" Map.empty "[NavigableString (u ''see '')]" "[NavigableString (u '' now'')]"]
    link_without_target_dropped [of "Tag (u ''span'') Map.empty [NavigableString (u ''click here'')]"
      "u ''div''" Map.empty "[NavigableString (u ''see '')]" "[NavigableString (u '' now'')]"]
  by (simp add: u_def handled_names_def)

text \<open>
C9: the skip test looks at the text below the body element, not at its conversion:
  a message whose body text is empty after stripping leaves the state of the run as it
  is, so that the run with the message equals the run without it. The example of the
  claim, a body that holds only a link with a target and no text, converts to the
  target and is skipped.
\<close>

theorem empty_text_skipped:
  "text_div m = Some td \<and> strip (get_text td) = [] \<longrightarrow>
     process_message P st m = st
     \<and> convert_html_to_md P (before @ m # after) = convert_html_to_md P (before @ after)"
  by (simp add: process_message_def convert_html_to_md_def)

theorem empty_text_skipped_witness:
  "text_div \<lparr>text_div = Some (Tag (u ''div'') Map.empty
                 [Element (Tag (u ''a'') [u ''href'' \<mapsto> u ''http://x.org''] [])]),
            from_name = None, date_div = None\<rparr>
     = Some (Tag (u ''div'') Map.empty [Element (Tag (u ''a'') [u ''href'' \<mapsto> u ''http://x.org''] [])])
   \<and> strip (get_text (Tag (u ''div'') Map.empty
                 [Element (Tag (u ''a'') [u ''href'' \<mapsto> u ''http://x.org''] [])])) = []
   \<and> convert_tag_to_md (Some (Tag (u ''div'') Map.empty
                 [Element (Tag (u ''a'') [u ''href'' \<mapsto> u ''http://x.org''] [])]))
     = u ''http://x.org''
   \<and> process_message ascii_platform initial_state
        \<lparr>text_div = Some (Tag (u ''div'') Map.empty
                 [Element (Tag (u ''a'') [u ''href'' \<mapsto> u ''http://x.org''] [])]),
         from_name = None, date_div = None\<rparr> = initial_state
   \<and> convert_html_to_md ascii_platform
        ([] @ \<lparr>text_div = Some (Tag (u ''div'') Map.empty
                 [Element (Tag (u ''a'') [u ''href'' \<mapsto> u ''http://x.org''] [])]),
         from_name = None, date_div = None\<rparr> # []) = initial_state"
  using empty_text_skipped [of
      "\<lparr>text_div = Some (Tag (u ''div'') Map.empty
                 [Element (Tag (u ''a'') [u ''href'' \<mapsto> u ''http://x.org''] [])]),
        from_name = None, date_div = None\<rparr>"
      "Tag (u ''div'') Map.empty [Element (Tag (u ''a'') [u ''href'' \<mapsto> u ''http://x.org''] [])]"
      ascii_platform initial_state "[]" "[]"]
  by (simp add: u_def strip_def get_attr_def convert_html_to_md_def)

section \<open>The run over the messages\<close>

lemma process_message_step:
  "process_message P st m =
     (case filename_of P m of
        None \<Rightarrow> st
      | Some f \<Rightarrow>
          if f \<in> used_filenames st then st
          else st\<lparr>used_filenames := insert f (used_filenames st),
                  converted_count := converted_count st + 1,
                  written := written st @ [(f, document_of P (last_author st) m)]\<rparr>)"
  by (auto simp: process_message_def filename_of_def document_of_def Let_def
           split: option.splits prod.splits)

lemma step_last_author: "last_author (process_message P st m) = last_author st"
  by (simp add: process_message_step split: option.splits)

lemma step_used:
  "used_filenames (process_message P st m)
   = used_filenames st \<union> (case filename_of P m of None \<Rightarrow> {} | Some f \<Rightarrow> {f})"
  by (auto simp: process_message_step split: option.splits)

lemma step_written:
  "written (process_message P st m)
   = written st @ (case filename_of P m of
                     None \<Rightarrow> []
                   | Some f \<Rightarrow> if f \<in> used_filenames st then []
                               else [(f, document_of P (last_author st) m)])"
  by (simp add: process_message_step split: option.splits)

lemma run_last_author: "last_author (foldl (process_message P) st ms) = last_author st"
  by (induction ms arbitrary: st) (simp_all add: step_last_author)

lemma run_used_mono: "used_filenames st \<subseteq> used_filenames (foldl (process_message P) st ms)"
proof (induction ms arbitrary: st)
  case Nil
  then show ?case by simp
next
  case (Cons m ms)
  have "used_filenames st \<subseteq> used_filenames (process_message P st m)"
    by (auto simp: step_used)
  then show ?case using Cons [of "process_message P st m"] by auto
qed

lemma run_written_for:
  "filter (\<lambda>e. fst e = f) (written (foldl (process_message P) st ms))
   = filter (\<lambda>e. fst e = f) (written st)
     @ (if f \<in> used_filenames st then []
        else (case find (\<lambda>m. filename_of P m = Some f) ms of
                None \<Rightarrow> []
              | Some m \<Rightarrow> [(f, document_of P (last_author st) m)]))"
proof (induction ms arbitrary: st)
  case Nil
  then show ?case by simp
next
  case (Cons m ms)
  show ?case
  proof (cases "filename_of P m = Some f")
    case True
    then show ?thesis
      by (simp add: Cons step_written step_used step_last_author split: option.splits)
  next
    case False
    then have "filter (\<lambda>e. fst e = f) (written (process_message P st m))
               = filter (\<lambda>e. fst e = f) (written st)"
      by (auto simp: step_written split: option.splits)
    moreover have "(f \<in> used_filenames (process_message P st m)) = (f \<in> used_filenames st)"
      using False by (auto simp: step_used split: option.splits)
    ultimately show ?thesis
      using False by (simp add: Cons step_last_author split: option.splits)
  qed
qed

lemma run_written_distinct:
  "distinct (map fst (written st)) \<Longrightarrow> fst ` set (written st) \<subseteq> used_filenames st \<Longrightarrow>
   distinct (map fst (written (foldl (process_message P) st ms)))"
proof (induction ms arbitrary: st)
  case Nil
  then show ?case by simp
next
  case (Cons m ms)
  have "distinct (map fst (written (process_message P st m)))"
    using Cons.prems by (auto simp: step_written split: option.splits)
  moreover have "fst ` set (written (process_message P st m))
                 \<subseteq> used_filenames (process_message P st m)"
    using Cons.prems by (auto simp: step_written step_used split: option.splits if_splits)
  ultimately show ?case using Cons.IH [of "process_message P st m"] by simp
qed

text \<open>
C5: a run writes at most one document under each filename, and for every filename
  \<open>f\<close> what it writes under \<open>f\<close> is the document of the first message, in document
  order, that derives \<open>f\<close> (nothing when no message derives it); a message whose
  filename is already in the registry leaves the whole state as it is, and the run goes
  on; the registry only grows, at each message and over any longer run.
\<close>

theorem first_message_wins:
  "distinct (map fst (written (convert_html_to_md P msgs)))
   \<and> filter (\<lambda>e. fst e = f) (written (convert_html_to_md P msgs))
     = (case find (\<lambda>m. filename_of P m = Some f) msgs of
          None \<Rightarrow> []
        | Some m \<Rightarrow> [(f, document_of P (u ''Unknown Author'') m)])
   \<and> (filename_of P m = Some f \<and> f \<in> used_filenames st \<longrightarrow> process_message P st m = st)
   \<and> used_filenames st \<subseteq> used_filenames (process_message P st m)
   \<and> used_filenames (convert_html_to_md P msgs)
     \<subseteq> used_filenames (convert_html_to_md P (msgs @ later))"
proof -
  have 1: "distinct (map fst (written (convert_html_to_md P msgs)))"
    unfolding convert_html_to_md_def
    by (rule run_written_distinct) (simp_all add: initial_state_def)
  have 2: "filter (\<lambda>e. fst e = f) (written (convert_html_to_md P msgs))
     = (case find (\<lambda>m. filename_of P m = Some f) msgs of
          None \<Rightarrow> []
        | Some m \<Rightarrow> [(f, document_of P (u ''Unknown Author'') m)])"
    unfolding convert_html_to_md_def run_written_for
    by (simp add: initial_state_def split: option.splits)
  have 3: "filename_of P m = Some f \<and> f \<in> used_filenames st \<longrightarrow> process_message P st m = st"
    by (simp add: process_message_step)
  have 4: "used_filenames st \<subseteq> used_filenames (process_message P st m)"
    by (auto simp: step_used)
  have 5: "used_filenames (convert_html_to_md P msgs)
     \<subseteq> used_filenames (convert_html_to_md P (msgs @ later))"
    unfolding convert_html_to_md_def foldl_append by (rule run_used_mono)
  show ?thesis using 1 2 3 4 5 by blast
qed

section \<open>Examples of runs\<close>

lemmas run_simps = text_message_def u_def isspace_def is_punct_def special_chars_def strip_def
  sub_special_def sub_trailing_punct_def rsplit1_def clean_filename_def ascii_platform_def
  Let_def process_message_def convert_html_to_md_def initial_state_def final_content_def
  get_tags_from_content_def extract_title_and_date_def extract_first_meaningful_line_def
  extract_date_def splitlines_def is_linebreak_def filename_of_def document_of_def

theorem first_message_wins_witness:
  "filename_of ascii_platform (text_message ''Same title here'' (Some ''Bob''))
     = Some (u ''Same title here.md'')
   \<and> u ''Same title here.md''
       \<in> used_filenames (convert_html_to_md ascii_platform
                            [text_message ''Same title here'' (Some ''Ann'')])
   \<and> process_message ascii_platform
         (convert_html_to_md ascii_platform [text_message ''Same title here'' (Some ''Ann'')])
         (text_message ''Same title here'' (Some ''Bob''))
       = convert_html_to_md ascii_platform [text_message ''Same title here'' (Some ''Ann'')]
   \<and> written (convert_html_to_md ascii_platform
         [text_message ''Same title here'' (Some ''Ann''),
          text_message ''Same title here'' (Some ''Bob'')])
       = [(u ''Same title here.md'',
           document_of ascii_platform (u ''Unknown Author'')
             (text_message ''Same title here'' (Some ''Ann'')))]
   \<and> document_of ascii_platform (u ''Unknown Author'')
         (text_message ''Same title here'' (Some ''Ann''))
       = u ''---'' @ [10] @ u ''author: '' @ [34] @ u ''Ann'' @ [34, 10] @ u ''---'' @ [10, 10]
         @ u ''Same title here''"
  using first_message_wins [of ascii_platform
      "[text_message ''Same title here'' (Some ''Ann''),
        text_message ''Same title here'' (Some ''Bob'')]"
      "u ''Same title here.md''"
      "text_message ''Same title here'' (Some ''Bob'')"
      "convert_html_to_md ascii_platform [text_message ''Same title here'' (Some ''Ann'')]"
      "[]"]
  by (simp add: run_simps)

text \<open>
C1, evaluated on the code: the run over a message with the author \<open>Alice\<close> followed by
  a message without an author element writes the second document with the author
  \<open>Unknown Author\<close>, and after any run \<open>last_author\<close> still holds its initial value,
  since no iteration assigns it.
\<close>

theorem author_not_carried_forward:
  "written (convert_html_to_md ascii_platform
     [text_message ''Hello from Alice'' (Some ''Alice''),
      text_message ''Second message'' None])
   = [(u ''Hello from Alice.md'',
       u ''---'' @ [10] @ u ''author: '' @ [34] @ u ''Alice'' @ [34, 10] @ u ''---'' @ [10, 10]
       @ u ''Hello from Alice''),
      (u ''Second message.md'',
       u ''---'' @ [10] @ u ''author: '' @ [34] @ u ''Unknown Author'' @ [34, 10] @ u ''---''
       @ [10, 10] @ u ''Second message'')]
   \<and> last_author (convert_html_to_md P msgs) = u ''Unknown Author''"
proof -
  have "last_author (convert_html_to_md P msgs) = u ''Unknown Author''"
    unfolding convert_html_to_md_def run_last_author by (simp add: initial_state_def)
  then show ?thesis by (simp add: run_simps)
qed

section \<open>The date format\<close>

lemma alt1_sound: "(t, r) \<in> set (alt1 p s) \<Longrightarrow> s = t @ r \<and> length t = 1"
  by (auto simp: alt1_def split: list.splits if_splits)

lemma alt2_sound: "(t, r) \<in> set (alt2 p q s) \<Longrightarrow> s = t @ r \<and> length t = 2"
  by (auto simp: alt2_def split: list.splits if_splits)

lemma re_day_sound: "(t, r) \<in> set (re_day P s) \<Longrightarrow> s = t @ r \<and> (length t = 1 \<or> length t = 2)"
  unfolding re_day_def using alt1_sound alt2_sound by fastforce

lemma re_month_sound: "(t, r) \<in> set (re_month s) \<Longrightarrow> s = t @ r \<and> (length t = 1 \<or> length t = 2)"
  unfolding re_month_def using alt1_sound alt2_sound by fastforce

lemma re_year_sound: "(t, r) \<in> set (re_year P s) \<Longrightarrow> s = t @ r \<and> length t = 4"
  by (auto simp: re_year_def split: list.splits if_splits)

lemma re_dot_sound: "r \<in> set (re_dot s) \<Longrightarrow> s = 46 # r"
  by (auto simp: re_dot_def split: list.splits if_splits)

lemma format_matches_sound:
  assumes "(dt, mt, yt, r) \<in> set (format_matches P s)"
  shows "s = dt @ [46] @ mt @ [46] @ yt @ r
         \<and> (length dt = 1 \<or> length dt = 2) \<and> (length mt = 1 \<or> length mt = 2) \<and> length yt = 4"
proof -
  from assms obtain r1 r2 r3 r4 where
    d: "(dt, r1) \<in> set (re_day P s)" and d1: "r2 \<in> set (re_dot r1)"
    and m: "(mt, r3) \<in> set (re_month r2)" and d2: "r4 \<in> set (re_dot r3)"
    and y: "(yt, r) \<in> set (re_year P r4)"
    by (auto simp: format_matches_def)
  show ?thesis
    using re_day_sound [OF d] re_dot_sound [OF d1] re_month_sound [OF m] re_dot_sound [OF d2]
      re_year_sound [OF y]
    by simp
qed

lemma strptime_sound:
  assumes "strptime_dmY P tok = Inr (y, m, d)"
  shows "\<exists>dt mt yt. tok = dt @ [46] @ mt @ [46] @ yt
           \<and> (length dt = 1 \<or> length dt = 2) \<and> (length mt = 1 \<or> length mt = 2) \<and> length yt = 4
           \<and> py_int P dt = Inr d \<and> py_int P mt = Inr m \<and> py_int P yt = Inr y
           \<and> valid_date y m d"
proof -
  from assms obtain dt mt yt ms where
    f: "format_matches P tok = (dt, mt, yt, []) # ms"
    and v: "py_int P yt = Inr y" "py_int P mt = Inr m" "py_int P dt = Inr d" "valid_date y m d"
    by (auto simp: strptime_dmY_def split: list.splits prod.splits sum.splits if_splits)
  have "(dt, mt, yt, []) \<in> set (format_matches P tok)" using f by simp
  then show ?thesis using format_matches_sound v by fastforce
qed

lemma str_nat_digit: "n < 10 \<Longrightarrow> str_nat n = [48 + n]"
  by (subst str_nat.simps) simp

lemma str_nat_step: "10 \<le> n \<Longrightarrow> str_nat n = str_nat (n div 10) @ [48 + n mod 10]"
  by (subst str_nat.simps) simp

lemma replicate_small: "replicate 1 x = [x]" "replicate 2 x = [x, x]" "replicate 3 x = [x, x, x]"
  by (simp_all add: numeral_2_eq_2 numeral_3_eq_3)

lemma zfill_2_digits: "n < 100 \<Longrightarrow> zfill 2 (str_nat n) = [48 + n div 10, 48 + n mod 10]"
proof (cases "n < 10")
  case True
  then show ?thesis by (simp add: str_nat_digit zfill_def replicate_small)
next
  case False
  assume "n < 100"
  then have "n div 10 < 10" by simp
  then show ?thesis using False by (simp add: str_nat_step str_nat_digit zfill_def)
qed

lemma div_10_10: "(n::nat) div 10 div 10 = n div 100"
  by (simp flip: div_mult2_eq)

lemma div_10_100: "(n::nat) div 10 div 100 = n div 1000"
  by (simp flip: div_mult2_eq)

lemma str_nat_3: "100 \<le> n \<Longrightarrow> n < 1000 \<Longrightarrow>
  str_nat n = [48 + n div 100, 48 + n div 10 mod 10, 48 + n mod 10]"
proof -
  assume a: "100 \<le> n" "n < 1000"
  then have b: "10 \<le> n div 10" "n div 10 div 10 < 10" by simp_all
  have "str_nat n = str_nat (n div 10) @ [48 + n mod 10]" using a by (simp add: str_nat_step)
  also have "str_nat (n div 10) = str_nat (n div 10 div 10) @ [48 + n div 10 mod 10]"
    using b by (simp add: str_nat_step)
  also have "str_nat (n div 10 div 10) = [48 + n div 10 div 10]"
    using b by (simp add: str_nat_digit)
  finally show ?thesis by (simp add: div_10_10)
qed

lemma str_nat_4: "1000 \<le> n \<Longrightarrow> n < 10000 \<Longrightarrow>
  str_nat n = [48 + n div 1000, 48 + n div 100 mod 10, 48 + n div 10 mod 10, 48 + n mod 10]"
proof -
  assume a: "1000 \<le> n" "n < 10000"
  then have b: "100 \<le> n div 10" "n div 10 < 1000" by simp_all
  have "str_nat n = str_nat (n div 10) @ [48 + n mod 10]" using a by (simp add: str_nat_step)
  then show ?thesis using str_nat_3 [OF b] by (simp add: div_10_10 div_10_100)
qed

lemma zfill_4_digits: "n < 10000 \<Longrightarrow>
  zfill 4 (str_nat n) = [48 + n div 1000, 48 + n div 100 mod 10, 48 + n div 10 mod 10, 48 + n mod 10]"
proof -
  assume n: "n < 10000"
  consider "n < 10" | "10 \<le> n" "n < 100" | "100 \<le> n" "n < 1000" | "1000 \<le> n" by linarith
  then show ?thesis
  proof cases
    case 1
    then show ?thesis by (simp add: str_nat_digit zfill_def replicate_small)
  next
    case 2
    then have "n div 10 < 10" by simp
    then show ?thesis using 2 by (simp add: str_nat_step str_nat_digit zfill_def replicate_small)
  next
    case 3
    then show ?thesis by (simp add: str_nat_3 zfill_def replicate_small)
  next
    case 4
    then show ?thesis using n by (simp add: str_nat_4 zfill_def)
  qed
qed

lemma digit_not_space: "a \<le> 9 \<Longrightarrow> \<not> isspace (48 + a)"
  by (auto simp: isspace_def)

lemma decimal_value_digit: "a \<le> 9 \<Longrightarrow> decimal_value P (48 + a) = Some a"
  by (simp add: decimal_value_def)

lemma py_int_2: "a \<le> 9 \<Longrightarrow> b \<le> 9 \<Longrightarrow> py_int P [48 + a, 48 + b] = Inr (10 * a + b)"
  by (simp add: py_int_def strip_def digit_not_space decimal_value_digit)

lemma py_int_4: "a \<le> 9 \<Longrightarrow> b \<le> 9 \<Longrightarrow> c \<le> 9 \<Longrightarrow> d \<le> 9 \<Longrightarrow>
  py_int P [48 + a, 48 + b, 48 + c, 48 + d] = Inr (10 * (10 * (10 * a + b) + c) + d)"
  by (simp add: py_int_def strip_def digit_not_space decimal_value_digit)

lemma decimal_value_ascii: "c < 128 \<Longrightarrow> \<not> (48 \<le> c \<and> c \<le> 57) \<Longrightarrow> decimal_value P c = None"
  by (simp add: decimal_value_def)

lemma re_dot_dot: "re_dot (46 # X) = [X]"
  by (simp add: re_dot_def)

lemma re_dot_digit: "a \<le> 9 \<Longrightarrow> re_dot ((48 + a) # X) = []"
  by (simp add: re_dot_def)

lemma re_year_digits:
  "y3 \<le> 9 \<Longrightarrow> y2 \<le> 9 \<Longrightarrow> y1 \<le> 9 \<Longrightarrow> y0 \<le> 9 \<Longrightarrow>
   re_year P [48 + y3, 48 + y2, 48 + y1, 48 + y0] = [([48 + y3, 48 + y2, 48 + y1, 48 + y0], [])]"
  by (simp add: re_year_def is_digit_def decimal_value_digit)

lemma re_day_two:
  assumes "a \<le> 3" "b \<le> 9" "a = 0 \<longrightarrow> 1 \<le> b" "a = 3 \<longrightarrow> b \<le> 1"
  shows "re_day P ((48 + a) # (48 + b) # 46 # X)
         = ([48 + a, 48 + b], 46 # X) # (if 1 \<le> a then [([48 + a], (48 + b) # 46 # X)] else [])"
proof -
  consider "a = 0" | "a = 1" | "a = 2" | "a = 3" using assms(1) by linarith
  then show ?thesis
    using assms
    by cases (auto simp: re_day_def alt1_def alt2_def one_to_nine_def is_digit_def
                         decimal_value_digit)
qed

lemma re_day_one:
  assumes "1 \<le> b" "b \<le> 9"
  shows "re_day P ((48 + b) # 46 # X) = [([48 + b], 46 # X)]"
  using assms
  by (auto simp: re_day_def alt1_def alt2_def one_to_nine_def is_digit_def decimal_value_def)

lemma re_month_two:
  assumes "c \<le> 1" "e \<le> 9" "c = 0 \<longrightarrow> 1 \<le> e" "c = 1 \<longrightarrow> e \<le> 2"
  shows "re_month ((48 + c) # (48 + e) # 46 # X)
         = ([48 + c, 48 + e], 46 # X) # (if c = 1 then [([48 + c], (48 + e) # 46 # X)] else [])"
proof -
  consider "c = 0" | "c = 1" using assms(1) by linarith
  then show ?thesis
    using assms by cases (auto simp: re_month_def alt1_def alt2_def one_to_nine_def)
qed

lemma re_month_one:
  assumes "1 \<le> e" "e \<le> 9"
  shows "re_month ((48 + e) # 46 # X) = [([48 + e], 46 # X)]"
  using assms by (auto simp: re_month_def alt1_def alt2_def one_to_nine_def)

text \<open>The day and the month, each written with two digits or, below ten, with one.\<close>

lemma format_matches_parts:
  assumes d: "re_day P (dt @ 46 # mt @ 46 # yt) = (dt, 46 # mt @ 46 # yt) # ds"
    and dn: "\<forall>x\<in>set ds. re_dot (snd x) = []"
    and m: "re_month (mt @ 46 # yt) = (mt, 46 # yt) # ms"
    and mn: "\<forall>x\<in>set ms. re_dot (snd x) = []"
    and y: "re_year P yt = [(yt, [])]"
  shows "format_matches P (dt @ [46] @ mt @ [46] @ yt) = [(dt, mt, yt, [])]"
  using dn mn by (simp add: format_matches_def d m y re_dot_dot split_def)

lemma py_int_1: "a \<le> 9 \<Longrightarrow> py_int P [48 + a] = Inr a"
  by (simp add: py_int_def strip_def digit_not_space decimal_value_digit)

lemma str_nat_2: "10 \<le> n \<Longrightarrow> n < 100 \<Longrightarrow> str_nat n = [48 + n div 10, 48 + n mod 10]"
proof -
  assume a: "10 \<le> n" "n < 100"
  then have "n div 10 < 10" by simp
  then show ?thesis using a by (simp add: str_nat_step str_nat_digit)
qed

lemma zfill_2_short: "zfill 2 [x] = [48, x]" "zfill 2 [x, z] = [x, z]"
  by (simp_all add: zfill_def)

lemma day_text_matches:
  assumes "1 \<le> d" "d \<le> 31" "dt = str_nat d \<or> dt = zfill 2 (str_nat d)"
  shows "\<exists>ds. re_day P (dt @ 46 # X) = (dt, 46 # X) # ds
              \<and> (\<forall>x\<in>set ds. re_dot (snd x) = []) \<and> py_int P dt = Inr d"
proof (cases "dt = [48 + d]")
  case True
  have "d < 10"
  proof (rule ccontr)
    assume "\<not> d < 10"
    then have "10 \<le> d" "d < 100" using assms(2) by simp_all
    then have "length dt = 2" using assms(3) by (auto simp: str_nat_2 zfill_2_short)
    then show False using True by simp
  qed
  then have "re_day P ((48 + d) # 46 # X) = [([48 + d], 46 # X)]" "py_int P [48 + d] = Inr d"
    using assms(1) by (simp_all add: re_day_one py_int_1)
  then show ?thesis using True by simp
next
  case False
  define a where "a = d div 10"
  define b where "b = d mod 10"
  have dt: "dt = [48 + a, 48 + b]"
  proof (cases "d < 10")
    case True
    then show ?thesis using False assms(2,3) by (auto simp: str_nat_digit zfill_2_short a_def b_def)
  next
    case False
    then have "10 \<le> d" "d < 100" using assms(2) by simp_all
    then show ?thesis using assms(3) by (auto simp: str_nat_2 zfill_2_short a_def b_def)
  qed
  have ab: "a \<le> 3" "b \<le> 9" "a = 0 \<longrightarrow> 1 \<le> b" "a = 3 \<longrightarrow> b \<le> 1"
    using assms(1,2) unfolding a_def b_def by presburger+
  have val: "10 * a + b = d" unfolding a_def b_def by simp
  have "re_day P ((48 + a) # (48 + b) # 46 # X)
         = ([48 + a, 48 + b], 46 # X) # (if 1 \<le> a then [([48 + a], (48 + b) # 46 # X)] else [])"
    using ab by (rule re_day_two)
  moreover have "\<forall>x\<in>set (if 1 \<le> a then [([48 + a], (48 + b) # 46 # X)] else []). re_dot (snd x) = []"
    using ab(2) by (simp add: re_dot_digit)
  moreover have "py_int P [48 + a, 48 + b] = Inr d"
    using ab py_int_2 [of a b P] val by simp
  ultimately show ?thesis unfolding dt by auto
qed

lemma month_text_matches:
  assumes "1 \<le> m" "m \<le> 12" "mt = str_nat m \<or> mt = zfill 2 (str_nat m)"
  shows "\<exists>ms. re_month (mt @ 46 # X) = (mt, 46 # X) # ms
              \<and> (\<forall>x\<in>set ms. re_dot (snd x) = []) \<and> py_int P mt = Inr m"
proof (cases "mt = [48 + m]")
  case True
  have "m < 10"
  proof (rule ccontr)
    assume "\<not> m < 10"
    then have "10 \<le> m" "m < 100" using assms(2) by simp_all
    then have "length mt = 2" using assms(3) by (auto simp: str_nat_2 zfill_2_short)
    then show False using True by simp
  qed
  then have "re_month ((48 + m) # 46 # X) = [([48 + m], 46 # X)]" "py_int P [48 + m] = Inr m"
    using assms(1) by (simp_all add: re_month_one py_int_1)
  then show ?thesis using True by simp
next
  case False
  define c where "c = m div 10"
  define e where "e = m mod 10"
  have mt: "mt = [48 + c, 48 + e]"
  proof (cases "m < 10")
    case True
    then show ?thesis using False assms(2,3) by (auto simp: str_nat_digit zfill_2_short c_def e_def)
  next
    case False
    then have "10 \<le> m" "m < 100" using assms(2) by simp_all
    then show ?thesis using assms(3) by (auto simp: str_nat_2 zfill_2_short c_def e_def)
  qed
  have ce: "c \<le> 1" "e \<le> 9" "c = 0 \<longrightarrow> 1 \<le> e" "c = 1 \<longrightarrow> e \<le> 2"
    using assms(1,2) unfolding c_def e_def by presburger+
  have val: "10 * c + e = m" unfolding c_def e_def by simp
  have "re_month ((48 + c) # (48 + e) # 46 # X)
         = ([48 + c, 48 + e], 46 # X) # (if c = 1 then [([48 + c], (48 + e) # 46 # X)] else [])"
    using ce by (rule re_month_two)
  moreover have "\<forall>x\<in>set (if c = 1 then [([48 + c], (48 + e) # 46 # X)] else []). re_dot (snd x) = []"
    using ce(2) by (simp add: re_dot_digit)
  moreover have "py_int P [48 + c, 48 + e] = Inr m"
    using ce py_int_2 [of c e P] val by simp
  ultimately show ?thesis unfolding mt by auto
qed

lemma year_text_matches:
  assumes "y \<le> 9999"
  shows "re_year P (zfill 4 (str_nat y)) = [(zfill 4 (str_nat y), [])]
         \<and> py_int P (zfill 4 (str_nat y)) = Inr y"
proof -
  define y3 where "y3 = y div 1000"
  define y2 where "y2 = y div 100 mod 10"
  define y1 where "y1 = y div 10 mod 10"
  define y0 where "y0 = y mod 10"
  have yt: "zfill 4 (str_nat y) = [48 + y3, 48 + y2, 48 + y1, 48 + y0]"
    using assms by (simp add: zfill_4_digits y3_def y2_def y1_def y0_def)
  have b: "y3 \<le> 9" "y2 \<le> 9" "y1 \<le> 9" "y0 \<le> 9"
    using assms unfolding y3_def y2_def y1_def y0_def by simp_all
  have "y = 10 * (y div 10) + y0" unfolding y0_def by simp
  also have "y div 10 = 10 * (y div 10 div 10) + y1" unfolding y1_def by simp
  also have "y div 10 div 10 = y div 100" by (rule div_10_10)
  also have "y div 100 = 10 * (y div 100 div 10) + y2" unfolding y2_def by simp
  also have "y div 100 div 10 = y3" unfolding y3_def by (simp flip: div_mult2_eq)
  finally have val: "10 * (10 * (10 * y3 + y2) + y1) + y0 = y" by simp
  show ?thesis
    unfolding yt using b val by (simp add: re_year_digits py_int_4)
qed

lemma strptime_complete:
  assumes v: "valid_date y m d"
    and dt: "dt = str_nat d \<or> dt = zfill 2 (str_nat d)"
    and mt: "mt = str_nat m \<or> mt = zfill 2 (str_nat m)"
  shows "strptime_dmY P (dt @ [46] @ mt @ [46] @ zfill 4 (str_nat y)) = Inr (y, m, d)"
proof -
  let ?yt = "zfill 4 (str_nat y)"
  have bd: "1 \<le> d" "d \<le> 31" "1 \<le> m" "m \<le> 12" "y \<le> 9999"
    using v by (auto simp: valid_date_def days_in_month_def split: if_splits)
  obtain ds where ds: "re_day P (dt @ 46 # mt @ 46 # ?yt) = (dt, 46 # mt @ 46 # ?yt) # ds"
    "\<forall>x\<in>set ds. re_dot (snd x) = []" "py_int P dt = Inr d"
    using day_text_matches [OF bd(1,2) dt] by blast
  obtain ms where ms: "re_month (mt @ 46 # ?yt) = (mt, 46 # ?yt) # ms"
    "\<forall>x\<in>set ms. re_dot (snd x) = []" "py_int P mt = Inr m"
    using month_text_matches [OF bd(3,4) mt] by blast
  have yt: "re_year P ?yt = [(?yt, [])]" "py_int P ?yt = Inr y"
    using year_text_matches [OF bd(5)] by simp_all
  have "format_matches P (dt @ [46] @ mt @ [46] @ ?yt) = [(dt, mt, ?yt, [])]"
    using ds(1,2) ms(1,2) yt(1) by (rule format_matches_parts)
  then show ?thesis using ds(3) ms(3) yt(2) v by (simp add: strptime_dmY_def)
qed

section \<open>The date of a message\<close>

lemma split_acc_token:
  "\<forall>x\<in>set tok. \<not> isspace x \<Longrightarrow> split_acc cur (tok @ rest) = split_acc (cur @ tok) rest"
  by (induction tok arbitrary: cur) simp_all

lemma split_acc_spaces: "\<forall>x\<in>set pre. isspace x \<Longrightarrow> split_acc [] (pre @ rest) = split_acc [] rest"
  by (induction pre) simp_all

lemma split_ws_first_token:
  assumes "\<forall>x\<in>set pre. isspace x" "tok \<noteq> []" "\<forall>x\<in>set tok. \<not> isspace x"
    and "rest = [] \<or> isspace (hd rest)"
  shows "split_ws (pre @ tok @ rest) = tok # split_ws rest"
proof -
  have "split_ws (pre @ tok @ rest) = split_acc tok rest"
    using assms(1,3) by (simp add: split_ws_def split_acc_spaces split_acc_token)
  also have "split_acc tok rest = tok # split_ws rest"
    using assms(2,4) by (cases rest) (simp_all add: split_ws_def)
  finally show ?thesis .
qed

lemma split_ws_blank: "\<forall>x\<in>set v. isspace x \<Longrightarrow> split_ws v = []"
  using split_acc_spaces [of v "[]"] by (simp add: split_ws_def)

lemma str_nat_digits: "set (str_nat n) \<subseteq> {48..57}"
proof (induction n rule: str_nat.induct)
  case (1 n)
  show ?case
  proof (cases "n < 10")
    case True
    then show ?thesis by (simp add: str_nat_digit)
  next
    case False
    have "n mod 10 \<le> 9" by simp
    then have "48 + n mod 10 \<in> {48..57}" by simp
    then show ?thesis using False 1 by (simp add: str_nat_step)
  qed
qed

lemma zfill_digits: "set (zfill w (str_nat n)) \<subseteq> {48..57}"
  using str_nat_digits [of n] by (auto simp: zfill_def)

lemma strptime_valid: "strptime_dmY P tok = Inr (y, m, d) \<Longrightarrow> valid_date y m d"
  using strptime_sound by blast

lemma extract_date_absent_attr:
  "attrs dd (u ''title'') = None \<Longrightarrow> extract_date P (Some dd) = None"
  by (simp add: extract_date_def get_attr_def parse_date_title_def split_ws_def)

lemma extract_date_present:
  "attrs dd (u ''title'') = Some v \<Longrightarrow>
   extract_date P (Some dd) =
     (case split_ws v of
        [] \<Rightarrow> None
      | tok # toks \<Rightarrow> (case strptime_dmY P tok of
                        Inl e \<Rightarrow> None
                      | Inr date_obj \<Rightarrow> Some (strftime_Ymd P date_obj)))"
  by (auto simp: extract_date_def get_attr_def parse_date_title_def
           split: list.splits sum.splits exn.splits)

lemma title_date_of_message:
  "snd (extract_title_and_date P message)
   = (case fst (extract_title_and_date P message) of
        None \<Rightarrow> None
      | Some title \<Rightarrow> extract_date P (date_div message))"
  by (auto simp: extract_title_and_date_def Let_def split: option.splits)

lemma date_shape:
  assumes "valid_date y m d"
  shows "length (zfill 2 (str_nat m)) = 2 \<and> length (zfill 2 (str_nat d)) = 2
         \<and> set (zfill 2 (str_nat m)) \<subseteq> {48..57} \<and> set (zfill 2 (str_nat d)) \<subseteq> {48..57}
         \<and> set (str_nat y) \<subseteq> {48..57}
         \<and> (1000 \<le> y \<longrightarrow> year_text P y = str_nat y \<and> length (str_nat y) = 4)"
proof -
  have b: "m < 100" "d < 100" "y < 10000"
    using assms by (auto simp: valid_date_def days_in_month_def split: if_splits)
  have 1: "1000 \<le> y \<longrightarrow> year_text P y = str_nat y \<and> length (str_nat y) = 4"
    using b(3) by (simp add: str_nat_4 year_text_def)
  have 2: "length (zfill 2 (str_nat m)) = 2" "length (zfill 2 (str_nat d)) = 2"
    using b by (simp_all add: zfill_2_digits)
  show ?thesis
    using 1 2 zfill_digits [of 2 m] zfill_digits [of 2 d] str_nat_digits [of y] by blast
qed

text \<open>
  C8, amended. The date block returns no date when there is no date element, when the
  element has no \<open>title\<close> attribute, when the attribute holds no token, and when its
  first whitespace-delimited token does not parse; both exceptions that the block can
  raise are caught, so it always returns. The first token is the first maximal run of
  code points that are not whitespace. A token parses exactly as a day of one or two
  digits, a dot, a month of one or two digits, a dot and a year of four digits that
  together name a valid date, and every valid date written so parses to itself. On
  success the block returns the year as \<open>%Y\<close> renders it, a hyphen, the two-digit
  month, a hyphen and the two-digit day: for every year from 1000 on this is
  \<open>YYYY-MM-DD\<close>, and for a year below 1000 the year has the digits that the C library
  gives it. The date of a message is that of the block when the message yields a title,
  and absent when it yields none.
\<close>

theorem date_extraction:
  "(extract_date P None = None)
   \<and> (attrs dd (u ''title'') = None \<longrightarrow> extract_date P (Some dd) = None)
   \<and> (attrs dd (u ''title'') = Some v \<and> split_ws v = [] \<longrightarrow> extract_date P (Some dd) = None)
   \<and> (attrs dd (u ''title'') = Some v \<and> split_ws v = tok # toks
        \<and> strptime_dmY P tok = Inl e \<longrightarrow> extract_date P (Some dd) = None)
   \<and> (attrs dd (u ''title'') = Some v \<and> split_ws v = tok # toks
        \<and> strptime_dmY P tok = Inr (y, m, d) \<longrightarrow>
          extract_date P (Some dd)
          = Some (year_text P y @ [45] @ zfill 2 (str_nat m) @ [45] @ zfill 2 (str_nat d))
          \<and> length (zfill 2 (str_nat m)) = 2 \<and> length (zfill 2 (str_nat d)) = 2
          \<and> set (zfill 2 (str_nat m)) \<subseteq> {48..57} \<and> set (zfill 2 (str_nat d)) \<subseteq> {48..57}
          \<and> set (str_nat y) \<subseteq> {48..57}
          \<and> (1000 \<le> y \<longrightarrow> year_text P y = str_nat y \<and> length (str_nat y) = 4))
   \<and> ((\<forall>x\<in>set pre. isspace x) \<and> tok \<noteq> [] \<and> (\<forall>x\<in>set tok. \<not> isspace x)
        \<and> (rest = [] \<or> isspace (hd rest)) \<longrightarrow> split_ws (pre @ tok @ rest) = tok # split_ws rest)
   \<and> ((\<forall>x\<in>set v. isspace x) \<longrightarrow> split_ws v = [])
   \<and> (strptime_dmY P tok = Inr (y, m, d) \<longrightarrow>
        (\<exists>dt mt yt. tok = dt @ [46] @ mt @ [46] @ yt
           \<and> (length dt = 1 \<or> length dt = 2) \<and> (length mt = 1 \<or> length mt = 2) \<and> length yt = 4
           \<and> py_int P dt = Inr d \<and> py_int P mt = Inr m \<and> py_int P yt = Inr y
           \<and> valid_date y m d))
   \<and> (valid_date y m d \<and> (dtext = str_nat d \<or> dtext = zfill 2 (str_nat d))
        \<and> (mtext = str_nat m \<or> mtext = zfill 2 (str_nat m)) \<longrightarrow>
        strptime_dmY P (dtext @ [46] @ mtext @ [46] @ zfill 4 (str_nat y)) = Inr (y, m, d))
   \<and> snd (extract_title_and_date P message)
     = (case fst (extract_title_and_date P message) of
          None \<Rightarrow> None
        | Some title \<Rightarrow> extract_date P (date_div message))"
proof -
  have a: "extract_date P None = None" by (simp add: extract_date_def)
  have b: "attrs dd (u ''title'') = None \<longrightarrow> extract_date P (Some dd) = None"
    using extract_date_absent_attr by blast
  have c: "attrs dd (u ''title'') = Some v \<and> split_ws v = [] \<longrightarrow> extract_date P (Some dd) = None"
    by (auto simp: extract_date_present)
  have d: "attrs dd (u ''title'') = Some v \<and> split_ws v = tok # toks
        \<and> strptime_dmY P tok = Inl e \<longrightarrow> extract_date P (Some dd) = None"
    by (auto simp: extract_date_present)
  have e: "attrs dd (u ''title'') = Some v \<and> split_ws v = tok # toks
        \<and> strptime_dmY P tok = Inr (y, m, d) \<longrightarrow>
          extract_date P (Some dd)
          = Some (year_text P y @ [45] @ zfill 2 (str_nat m) @ [45] @ zfill 2 (str_nat d))"
    by (auto simp: extract_date_present strftime_Ymd_def)
  have f: "strptime_dmY P tok = Inr (y, m, d) \<longrightarrow>
          length (zfill 2 (str_nat m)) = 2 \<and> length (zfill 2 (str_nat d)) = 2
          \<and> set (zfill 2 (str_nat m)) \<subseteq> {48..57} \<and> set (zfill 2 (str_nat d)) \<subseteq> {48..57}
          \<and> set (str_nat y) \<subseteq> {48..57}
          \<and> (1000 \<le> y \<longrightarrow> year_text P y = str_nat y \<and> length (str_nat y) = 4)"
    using date_shape [OF strptime_valid] by blast
  have g: "(\<forall>x\<in>set pre. isspace x) \<and> tok \<noteq> [] \<and> (\<forall>x\<in>set tok. \<not> isspace x)
        \<and> (rest = [] \<or> isspace (hd rest)) \<longrightarrow> split_ws (pre @ tok @ rest) = tok # split_ws rest"
    using split_ws_first_token by blast
  have h: "(\<forall>x\<in>set v. isspace x) \<longrightarrow> split_ws v = []"
    using split_ws_blank by blast
  have i: "strptime_dmY P tok = Inr (y, m, d) \<longrightarrow>
        (\<exists>dt mt yt. tok = dt @ [46] @ mt @ [46] @ yt
           \<and> (length dt = 1 \<or> length dt = 2) \<and> (length mt = 1 \<or> length mt = 2) \<and> length yt = 4
           \<and> py_int P dt = Inr d \<and> py_int P mt = Inr m \<and> py_int P yt = Inr y
           \<and> valid_date y m d)"
    using strptime_sound by blast
  have j: "valid_date y m d \<and> (dtext = str_nat d \<or> dtext = zfill 2 (str_nat d))
        \<and> (mtext = str_nat m \<or> mtext = zfill 2 (str_nat m)) \<longrightarrow>
        strptime_dmY P (dtext @ [46] @ mtext @ [46] @ zfill 4 (str_nat y)) = Inr (y, m, d)"
    using strptime_complete by blast
  show ?thesis
    using a b c d e f g h i j title_date_of_message [of P message] by (intro conjI) blast+
qed

lemmas date_simps = dated_def u_def isspace_def strip_def split_ws_def strptime_dmY_def
  format_matches_def re_day_def re_month_def re_year_def re_dot_def alt1_def alt2_def
  is_digit_def one_to_nine_def py_int_def valid_date_def days_in_month_def is_leap_def
  decimal_value_def ascii_platform_def glibc_platform_def zfill_def str_nat.simps
  extract_date_def parse_date_title_def strftime_Ymd_def year_text_def get_attr_def Let_def

text \<open>
  C8, as stated, fails: with the C library of GNU/Linux the title \<open>01.01.0999 12:00:00\<close>
  parses and the date returned is \<open>999-01-01\<close>, which is not \<open>YYYY-MM-DD\<close>; and a
  message without a body has no date although its date attribute parses.
\<close>

theorem date_not_four_digit_year:
  "extract_date glibc_platform (Some (dated ''01.01.0999 12:00:00'')) = Some (u ''999-01-01'')
   \<and> extract_date ascii_platform (Some (dated ''15.03.2024 10:11:12'')) = Some (u ''2024-03-15'')
   \<and> snd (extract_title_and_date ascii_platform
            \<lparr>text_div = None, from_name = None,
             date_div = Some (dated ''15.03.2024 10:11:12'')\<rparr>) = None"
  by (simp add: date_simps extract_title_and_date_def)

lemma strptime_example: "strptime_dmY ascii_platform (u ''15.03.2024'') = Inr (2024, 3, 15)"
  by (simp add: date_simps)

lemma strptime_failure: "strptime_dmY ascii_platform (u ''31.02.2024'') = Inl ValueError"
  by (simp add: date_simps)

lemma split_ws_example:
  "split_ws (u ''15.03.2024 10:11:12'') = [u ''15.03.2024'', u ''10:11:12'']"
  "split_ws (u ''31.02.2024 10:11:12'') = [u ''31.02.2024'', u ''10:11:12'']"
  "split_ws (u '' 10:11:12'') = [u ''10:11:12'']"
  "split_ws (u ''  '') = []"
  by (simp_all add: date_simps)

lemma date_texts_example:
  "str_nat 15 = u ''15''" "zfill 2 (str_nat 3) = u ''03''" "zfill 4 (str_nat 2024) = u ''2024''"
  "zfill 2 (str_nat 15) = u ''15''" "str_nat 2024 = u ''2024''"
  by (simp_all add: zfill_def str_nat.simps u_def)

theorem date_extraction_witness:
  "attrs (Tag (u ''div'') Map.empty []) (u ''title'') = None
   \<and> extract_date ascii_platform (Some (Tag (u ''div'') Map.empty [])) = None
   \<and> attrs (dated ''  '') (u ''title'') = Some (u ''  '')
   \<and> split_ws (u ''  '') = []
   \<and> extract_date ascii_platform (Some (dated ''  '')) = None
   \<and> attrs (dated ''31.02.2024 10:11:12'') (u ''title'') = Some (u ''31.02.2024 10:11:12'')
   \<and> split_ws (u ''31.02.2024 10:11:12'') = u ''31.02.2024'' # [u ''10:11:12'']
   \<and> strptime_dmY ascii_platform (u ''31.02.2024'') = Inl ValueError
   \<and> extract_date ascii_platform (Some (dated ''31.02.2024 10:11:12'')) = None
   \<and> attrs (dated ''15.03.2024 10:11:12'') (u ''title'') = Some (u ''15.03.2024 10:11:12'')
   \<and> split_ws (u ''15.03.2024 10:11:12'') = u ''15.03.2024'' # [u ''10:11:12'']
   \<and> strptime_dmY ascii_platform (u ''15.03.2024'') = Inr (2024, 3, 15)
   \<and> (1000::nat) \<le> 2024
   \<and> extract_date ascii_platform (Some (dated ''15.03.2024 10:11:12'')) = Some (u ''2024-03-15'')
   \<and> split_ws ([] @ u ''15.03.2024'' @ u '' 10:11:12'')
       = u ''15.03.2024'' # split_ws (u '' 10:11:12'')
   \<and> valid_date 2024 3 15
   \<and> strptime_dmY ascii_platform
         (str_nat 15 @ [46] @ zfill 2 (str_nat 3) @ [46] @ zfill 4 (str_nat 2024))
       = Inr (2024, 3, 15)"
proof -
  have a1: "attrs (Tag (u ''div'') Map.empty []) (u ''title'') = None" by simp
  have a2: "attrs (dated ''  '') (u ''title'') = Some (u ''  '')" by (simp add: dated_def)
  have a3: "attrs (dated ''31.02.2024 10:11:12'') (u ''title'') = Some (u ''31.02.2024 10:11:12'')"
    by (simp add: dated_def)
  have a4: "attrs (dated ''15.03.2024 10:11:12'') (u ''title'') = Some (u ''15.03.2024 10:11:12'')"
    by (simp add: dated_def)
  have sp: "\<forall>x\<in>set (u ''  ''). isspace x" by (simp add: u_def isspace_def)
  have tk: "u ''15.03.2024'' \<noteq> []" "\<forall>x\<in>set (u ''15.03.2024''). \<not> isspace x"
    "u '' 10:11:12'' = [] \<or> isspace (hd (u '' 10:11:12''))"
    by (simp_all add: u_def isspace_def)
  have vd: "valid_date 2024 3 15"
    by (simp add: valid_date_def days_in_month_def)
  have r: "str_nat 2024 @ [45] @ zfill 2 (str_nat 3) @ [45] @ zfill 2 (str_nat 15)
           = u ''2024-03-15''"
    by (simp add: zfill_def str_nat.simps u_def)
  note i1 = date_extraction [where P = ascii_platform and dd = "Tag (u ''div'') Map.empty []"]
  note i2 = date_extraction [where P = ascii_platform and dd = "dated ''  ''" and v = "u ''  ''"]
  note i3 = date_extraction [where P = ascii_platform and dd = "dated ''31.02.2024 10:11:12''"
      and v = "u ''31.02.2024 10:11:12''" and tok = "u ''31.02.2024''"
      and toks = "[u ''10:11:12'']" and e = ValueError]
  note i4 = date_extraction [where P = ascii_platform and dd = "dated ''15.03.2024 10:11:12''"
      and v = "u ''15.03.2024 10:11:12''" and tok = "u ''15.03.2024''"
      and toks = "[u ''10:11:12'']" and y = 2024 and m = 3 and d = 15 and pre = "[]"
      and rest = "u '' 10:11:12''" and dtext = "str_nat 15" and mtext = "zfill 2 (str_nat 3)"]
  have w1: "extract_date ascii_platform (Some (Tag (u ''div'') Map.empty [])) = None"
    using i1 a1 by blast
  have w2: "split_ws (u ''  '') = []" using i2 sp by blast
  have w2': "extract_date ascii_platform (Some (dated ''  '')) = None" using i2 a2 w2 by blast
  have w3: "extract_date ascii_platform (Some (dated ''31.02.2024 10:11:12'')) = None"
    using i3 a3 split_ws_example(2) strptime_failure by simp
  have w4: "extract_date ascii_platform (Some (dated ''15.03.2024 10:11:12''))
            = Some (u ''2024-03-15'')"
  proof -
    have "extract_date ascii_platform (Some (dated ''15.03.2024 10:11:12''))
      = Some (year_text ascii_platform 2024 @ [45] @ zfill 2 (str_nat 3) @ [45] @ zfill 2 (str_nat 15))
      \<and> year_text ascii_platform 2024 = str_nat 2024"
      using i4 a4 split_ws_example(1) strptime_example by simp
    then show ?thesis using r by simp
  qed
  have w5: "split_ws ([] @ u ''15.03.2024'' @ u '' 10:11:12'')
            = u ''15.03.2024'' # split_ws (u '' 10:11:12'')"
    using i4 tk by simp
  have w6: "strptime_dmY ascii_platform
         (str_nat 15 @ [46] @ zfill 2 (str_nat 3) @ [46] @ zfill 4 (str_nat 2024))
       = Inr (2024, 3, 15)"
    using i4 vd by blast
  show ?thesis
    using a1 a2 a3 a4 w1 w2 w2' w3 w4 w5 w6 vd split_ws_example(1,2) strptime_example
      strptime_failure
    by simp
qed

end
